theory Spec2Isabelle
  imports Main
begin

section \<open>Strings\<close>

text \<open>
  A string of the program is a \<^typ>\<open>string\<close>: the list of its code units, each below 256
  (the Latin-1 range, which holds every character the program's patterns name). The
  letters with two cases in that range are \<open>A-Z\<close> with \<open>a-z\<close> and \<open>0xC0-0xDE\<close> with
  \<open>0xE0-0xFE\<close> (without the multiplication and the division sign, \<open>0xD7\<close> and \<open>0xF7\<close>).
\<close>

definition letters_AZ :: string where
  "letters_AZ = ''ABCDEFGHIJKLMNOPQRSTUVWXYZ''"

definition letters_az :: string where
  "letters_az = ''abcdefghijklmnopqrstuvwxyz''"

definition upperLetters :: string where
  "upperLetters =
     [CHR ''A'', CHR ''B'', CHR ''C'', CHR ''D'', CHR ''E'', CHR ''F'', CHR ''G'',
      CHR ''H'', CHR ''I'', CHR ''J'', CHR ''K'', CHR ''L'', CHR ''M'', CHR ''N'',
      CHR ''O'', CHR ''P'', CHR ''Q'', CHR ''R'', CHR ''S'', CHR ''T'', CHR ''U'',
      CHR ''V'', CHR ''W'', CHR ''X'', CHR ''Y'', CHR ''Z'', CHR 0xC0, CHR 0xC1,
      CHR 0xC2, CHR 0xC3, CHR 0xC4, CHR 0xC5, CHR 0xC6, CHR 0xC7, CHR 0xC8,
      CHR 0xC9, CHR 0xCA, CHR 0xCB, CHR 0xCC, CHR 0xCD, CHR 0xCE, CHR 0xCF,
      CHR 0xD0, CHR 0xD1, CHR 0xD2, CHR 0xD3, CHR 0xD4, CHR 0xD5, CHR 0xD6,
      CHR 0xD8, CHR 0xD9, CHR 0xDA, CHR 0xDB, CHR 0xDC, CHR 0xDD, CHR 0xDE]"

definition lowerLetters :: string where
  "lowerLetters =
     [CHR ''a'', CHR ''b'', CHR ''c'', CHR ''d'', CHR ''e'', CHR ''f'', CHR ''g'',
      CHR ''h'', CHR ''i'', CHR ''j'', CHR ''k'', CHR ''l'', CHR ''m'', CHR ''n'',
      CHR ''o'', CHR ''p'', CHR ''q'', CHR ''r'', CHR ''s'', CHR ''t'', CHR ''u'',
      CHR ''v'', CHR ''w'', CHR ''x'', CHR ''y'', CHR ''z'', CHR 0xE0, CHR 0xE1,
      CHR 0xE2, CHR 0xE3, CHR 0xE4, CHR 0xE5, CHR 0xE6, CHR 0xE7, CHR 0xE8,
      CHR 0xE9, CHR 0xEA, CHR 0xEB, CHR 0xEC, CHR 0xED, CHR 0xEE, CHR 0xEF,
      CHR 0xF0, CHR 0xF1, CHR 0xF2, CHR 0xF3, CHR 0xF4, CHR 0xF5, CHR 0xF6,
      CHR 0xF8, CHR 0xF9, CHR 0xFA, CHR 0xFB, CHR 0xFC, CHR 0xFD, CHR 0xFE]"

text \<open>\<open>translate from to c\<close>: the character of \<open>to\<close> at the place \<open>c\<close> has in \<open>from\<close>, and
  \<open>c\<close> itself when it is not in \<open>from\<close>.\<close>

fun translate :: "string \<Rightarrow> string \<Rightarrow> char \<Rightarrow> char" where
  "translate (a # as) (b # bs) c = (if c = a then b else translate as bs c)"
| "translate [] bs c = c"
| "translate as [] c = c"

definition lowerChar :: "char \<Rightarrow> char" where
  "lowerChar c = translate upperLetters lowerLetters c"

definition toLowerCase :: "string \<Rightarrow> string" where
  "toLowerCase s = map lowerChar s"

text \<open>\<open>s.startsWith(k)\<close> and \<open>s.includes(k)\<close>: \<open>k\<close> is a prefix, a contiguous part, of \<open>s\<close>.\<close>

fun startsWith :: "string \<Rightarrow> string \<Rightarrow> bool" where
  "startsWith s [] = True"
| "startsWith [] (k # ks) = False"
| "startsWith (c # cs) (k # ks) = (c = k \<and> startsWith cs ks)"

fun includes_str :: "string \<Rightarrow> string \<Rightarrow> bool" where
  "includes_str [] k = (k = [])"
| "includes_str (c # cs) k = (startsWith (c # cs) k \<or> includes_str cs k)"

section \<open>The rule store of \<open>src/api/mas-update.ts\<close>\<close>

text \<open>
  \<open>MASUpdateRule\<close> with its nested objects \<open>trigger\<close> and \<open>action\<close>. An optional field
  (\<open>intent?\<close>, \<open>reason?\<close>, \<open>tag?\<close>, \<open>targetAgent?\<close>) is an \<open>option\<close>: \<open>None\<close> is
  \<open>undefined\<close>.
\<close>

datatype ActionType = Escalate | Block | Redirect | Modify_response

record Trigger =
  keywords_trigger :: "string list"
  intent :: "string option"

record Action =
  type_action :: ActionType
  reason :: "string option"
  tag :: "string option"
  targetAgent :: "string option"

record MASUpdateRule =
  id_rule :: string
  prompt :: string
  trigger :: Trigger
  action :: Action
  createdAt :: string
  active :: bool

text \<open>
  The private field \<open>rules\<close> of \<open>DynamicRuleStore\<close> is the state; every method takes it and
  the methods that write it return the new one. The calls of \<open>console.log\<close> are left out.
\<close>

type_synonym store = "MASUpdateRule list"

text \<open>
  \<open>checkMessage\<close>: the loop over \<open>this.rules\<close>. An inactive rule is skipped
  (\<open>continue\<close>); the first rule whose filtered keyword list is not empty is returned.
\<close>

fun checkLoop :: "string \<Rightarrow> MASUpdateRule list \<Rightarrow> MASUpdateRule option" where
  "checkLoop msgLower [] = None"
| "checkLoop msgLower (rule # rules) =
     (if \<not> active rule then checkLoop msgLower rules
      else let matches = filter (\<lambda>kw. includes_str msgLower kw) (keywords_trigger (trigger rule))
           in if length matches > 0 then Some rule else checkLoop msgLower rules)"

definition checkMessage :: "store \<Rightarrow> string \<Rightarrow> MASUpdateRule option" where
  "checkMessage rules message = (let msgLower = toLowerCase message in checkLoop msgLower rules)"

definition getRules :: "store \<Rightarrow> MASUpdateRule list" where
  "getRules rules = rules"

text \<open>
  \<open>deactivateRule\<close>: \<open>this.rules.find\<close> gives the first rule with the id; the assignment
  \<open>rule.active = false\<close> writes that element of the array. The result is the returned
  boolean and the store after the call.
\<close>

fun deactivateFirst :: "string \<Rightarrow> MASUpdateRule list \<Rightarrow> MASUpdateRule list" where
  "deactivateFirst ruleId [] = []"
| "deactivateFirst ruleId (r # rs) =
     (if id_rule r = ruleId then r\<lparr>active := False\<rparr> # rs else r # deactivateFirst ruleId rs)"

definition deactivateRule :: "store \<Rightarrow> string \<Rightarrow> bool \<times> store" where
  "deactivateRule rules ruleId =
     (case find (\<lambda>r. id_rule r = ruleId) rules of
        Some rule \<Rightarrow> (True, deactivateFirst ruleId rules)
      | None \<Rightarrow> (False, rules))"

definition clear :: "store \<Rightarrow> store" where
  "clear rules = []"

text \<open>The object \<open>applyDynamicRules\<close> returns; an absent field is \<open>None\<close>.\<close>

record Applied =
  blocked :: bool
  escalate :: bool
  tag_res :: "string option"
  reason_res :: "string option"
  rule_res :: "MASUpdateRule option"

definition applyDynamicRules :: "store \<Rightarrow> string \<Rightarrow> Applied" where
  "applyDynamicRules rules message =
     (case checkMessage rules message of
        None \<Rightarrow> \<lparr>blocked = False, escalate = False, tag_res = None, reason_res = None,
                 rule_res = None\<rparr>
      | Some matchedRule \<Rightarrow>
          \<lparr>blocked = (type_action (action matchedRule) = Block),
           escalate = (type_action (action matchedRule) = Escalate),
           tag_res = tag (action matchedRule),
           reason_res = reason (action matchedRule),
           rule_res = Some matchedRule\<rparr>)"

section \<open>Regular expressions\<close>

text \<open>
  The regular expressions of \<open>parsePrompt\<close> are built from literals, character classes,
  a class repeated once or more (\<open>+\<close>, greedy), an optional part (\<open>?\<close>, greedy),
  sequence, alternation and one capturing group. The character classes are a single
  character, \<open>\s\<close>, a range, a union and a complement.
\<close>

datatype cclass = Chr char | Space | OneOf string | Union cclass cclass | Not cclass

datatype regex =
    Lit string
  | Cls cclass
  | Plus cclass
  | Opt regex
  | Seq regex regex
  | Alt regex regex
  | Group regex

text \<open>
  Under the flag \<open>i\<close> two characters match when their canonical forms are equal: the
  upper-case letter of a lower-case one, the character itself otherwise.
\<close>

definition canonicalize :: "char \<Rightarrow> char" where
  "canonicalize c = translate lowerLetters upperLetters c"

definition canon :: "bool \<Rightarrow> char \<Rightarrow> char" where
  "canon ignoreCase c = (if ignoreCase then canonicalize c else c)"

text \<open>\<open>\s\<close>, and what \<open>trim\<close> removes: tab, line feed, vertical tab, form feed, carriage
  return, space and the no-break space.\<close>

definition isSpace :: "char \<Rightarrow> bool" where
  "isSpace c = (c \<in> set [CHR 0x09, CHR 0x0A, CHR 0x0B, CHR 0x0C, CHR 0x0D, CHR 0x20, CHR 0xA0])"

text \<open>
  A character is in a listed set (a range is the list of its characters) under \<open>i\<close> when
  a character of the set has its canonical form; the characters with the canonical form
  of \<open>x\<close> are \<open>x\<close>, its upper-case and its lower-case letter.
\<close>

fun cmatch :: "bool \<Rightarrow> cclass \<Rightarrow> char \<Rightarrow> bool" where
  "cmatch ic (Chr p) x = (canon ic x = canon ic p)"
| "cmatch ic Space x = isSpace x"
| "cmatch ic (OneOf cs) x =
     (x \<in> set cs \<or> (ic \<and> (canonicalize x \<in> set cs \<or> lowerChar x \<in> set cs)))"
| "cmatch ic (Union k l) x = (cmatch ic k x \<or> cmatch ic l x)"
| "cmatch ic (Not k) x = (\<not> cmatch ic k x)"

text \<open>A literal at the start of \<open>s\<close>: the rest of \<open>s\<close> behind it.\<close>

fun litMatch :: "bool \<Rightarrow> string \<Rightarrow> string \<Rightarrow> string option" where
  "litMatch ic [] s = Some s"
| "litMatch ic (p # ps) [] = None"
| "litMatch ic (p # ps) (x # xs) = (if canon ic x = canon ic p then litMatch ic ps xs else None)"

text \<open>The rests of \<open>s\<close> behind a run of one or more characters that satisfy \<open>P\<close>, the
  longest run first.\<close>

fun runs :: "(char \<Rightarrow> bool) \<Rightarrow> string \<Rightarrow> string list" where
  "runs P [] = []"
| "runs P (x # xs) = (if P x then runs P xs @ [xs] else [])"

text \<open>
  The backtracking matcher. A state is the input still to read and the text of group 1
  (\<open>None\<close>: the group has not taken part). \<open>ms ic r st\<close> lists the states \<open>r\<close> can end in
  from \<open>st\<close>, in the order backtracking tries them: a greedy \<open>+\<close> takes the longest run
  first, a greedy \<open>?\<close> tries its body before skipping it, an alternation its left side
  first. Every optional part of the program's patterns reads at least one character.
\<close>

fun ms :: "bool \<Rightarrow> regex \<Rightarrow> string \<times> string option \<Rightarrow> (string \<times> string option) list" where
  "ms ic (Lit w) (s, c) = (case litMatch ic w s of None \<Rightarrow> [] | Some s' \<Rightarrow> [(s', c)])"
| "ms ic (Cls k) (s, c) =
     (case s of [] \<Rightarrow> [] | x # xs \<Rightarrow> if cmatch ic k x then [(xs, c)] else [])"
| "ms ic (Plus k) (s, c) = map (\<lambda>s'. (s', c)) (runs (cmatch ic k) s)"
| "ms ic (Opt r) st = ms ic r st @ [st]"
| "ms ic (Seq a b) st = concat (map (ms ic b) (ms ic a st))"
| "ms ic (Alt a b) st = ms ic a st @ ms ic b st"
| "ms ic (Group r) (s, c) =
     map (\<lambda>(s', _). (s', Some (take (length s - length s') s))) (ms ic r (s, c))"

text \<open>A match that starts at the first character: the first state backtracking reaches.\<close>

definition exec :: "bool \<Rightarrow> regex \<Rightarrow> string \<Rightarrow> (string \<times> string option) option" where
  "exec ic r s = (case ms ic r (s, None) of [] \<Rightarrow> None | m # _ \<Rightarrow> Some m)"

text \<open>
  \<open>s.match(r)\<close> for a pattern without the flag \<open>g\<close>: the match at the leftmost start;
  \<open>None\<close> is \<open>null\<close>, and \<open>Some c\<close> gives \<open>match[1]\<close> (\<open>c = None\<close>: \<open>undefined\<close>).
\<close>

fun match_re :: "bool \<Rightarrow> regex \<Rightarrow> string \<Rightarrow> string option option" where
  "match_re ic r [] = map_option snd (exec ic r [])"
| "match_re ic r (c # cs) =
     (case exec ic r (c # cs) of Some m \<Rightarrow> Some (snd m) | None \<Rightarrow> match_re ic r cs)"

text \<open>
  \<open>s.replace(r, '')\<close> for a pattern with the flag \<open>g\<close>: from left to right, a match is cut
  out and the scan goes on behind it; where nothing matches (or only the empty string
  does) the character stays.
\<close>

fun removeAll_re :: "bool \<Rightarrow> regex \<Rightarrow> string \<Rightarrow> string" where
  "removeAll_re ic r [] = []"
| "removeAll_re ic r (c # cs) =
     (case exec ic r (c # cs) of
        None \<Rightarrow> c # removeAll_re ic r cs
      | Some (rest, g) \<Rightarrow>
          if length rest < length (c # cs) then removeAll_re ic r rest
          else c # removeAll_re ic r cs)"

text \<open>
  \<open>s.split(r)\<close> for a pattern without groups. \<open>acc\<close> is the piece since the last
  separator. A separator found at the current place closes the piece; an empty match
  closes a non-empty piece and is passed over.
\<close>

fun splitLoop :: "bool \<Rightarrow> regex \<Rightarrow> string \<Rightarrow> string \<Rightarrow> string list" where
  "splitLoop ic r acc [] = [acc]"
| "splitLoop ic r acc (c # cs) =
     (case exec ic r (c # cs) of
        None \<Rightarrow> splitLoop ic r (acc @ [c]) cs
      | Some (rest, g) \<Rightarrow>
          if length rest < length (c # cs) then acc # splitLoop ic r [] rest
          else if acc = [] then splitLoop ic r [c] cs
          else acc # splitLoop ic r [c] cs)"

definition split_re :: "bool \<Rightarrow> regex \<Rightarrow> string \<Rightarrow> string list" where
  "split_re ic r s =
     (if s = [] then (case exec ic r [] of None \<Rightarrow> [[]] | Some m \<Rightarrow> [])
      else splitLoop ic r [] s)"

definition trim :: "string \<Rightarrow> string" where
  "trim s = rev (dropWhile isSpace (rev (dropWhile isSpace s)))"

text \<open>\<open>toUpperCase\<close> on the lower-case letters; \<open>parsePrompt\<close> applies it to a run of
  \<open>[A-Za-z_]\<close> only.\<close>

definition toUpperCase :: "string \<Rightarrow> string" where
  "toUpperCase s = map canonicalize s"

text \<open>A sequence and an alternation of several parts.\<close>

fun seq :: "regex list \<Rightarrow> regex" where
  "seq [] = Lit []"
| "seq [r] = r"
| "seq (r # rs) = Seq r (seq rs)"

fun alt :: "regex \<Rightarrow> regex list \<Rightarrow> regex" where
  "alt r [] = r"
| "alt r (x # xs) = Alt r (alt x xs)"

section \<open>\<open>parsePrompt\<close> and \<open>addRule\<close>\<close>

text \<open>\<open>\s+\<close>, \<open>[^,]+\<close>, \<open>['"]\<close> and \<open>[A-Z_]\<close>.\<close>

definition spaces :: regex where
  "spaces = Plus Space"

definition notComma :: regex where
  "notComma = Plus (Not (Chr CHR '',''))"

definition quote :: cclass where
  "quote = Union (Chr (CHR 0x27)) (Chr (CHR 0x22))"

definition tagChars :: cclass where
  "tagChars = Union (OneOf letters_AZ) (Chr CHR ''_'')"

text \<open>
  The three trigger patterns, all with the flag \<open>i\<close>:
  \<^verbatim>\<open>/if\s+(?:a\s+)?customer\s+(?:wants?\s+to|asks?\s+to|requests?\s+to)\s+([^,]+)/i\<close>,
  \<^verbatim>\<open>/when\s+(?:a\s+)?customer\s+([^,]+)/i\<close> and
  \<^verbatim>\<open>/for\s+([^,]+)\s+requests?/i\<close>.
\<close>

definition triggerPatterns :: "regex list" where
  "triggerPatterns =
     [seq [Lit ''if'', spaces, Opt (seq [Lit ''a'', spaces]), Lit ''customer'', spaces,
           alt (seq [Lit ''want'', Opt (Lit ''s''), spaces, Lit ''to''])
               [seq [Lit ''ask'', Opt (Lit ''s''), spaces, Lit ''to''],
                seq [Lit ''request'', Opt (Lit ''s''), spaces, Lit ''to'']],
           spaces, Group notComma],
      seq [Lit ''when'', spaces, Opt (seq [Lit ''a'', spaces]), Lit ''customer'', spaces,
           Group notComma],
      seq [Lit ''for'', spaces, Group notComma, spaces, Lit ''request'', Opt (Lit ''s'')]]"

text \<open>\<^verbatim>\<open>/their|the|a|an|order|subscription/g\<close> and
  \<^verbatim>\<open>/if|when|do not|don't|should|must|always|never|the|a|an/g\<close>.\<close>

definition clauseStop :: regex where
  "clauseStop =
     alt (Lit ''their'') [Lit ''the'', Lit ''a'', Lit ''an'', Lit ''order'', Lit ''subscription'']"

definition fallbackStop :: regex where
  "fallbackStop =
     alt (Lit ''if'')
       [Lit ''when'', Lit ''do not'', Lit (''don'' @ [CHR 0x27] @ ''t''), Lit ''should'',
        Lit ''must'', Lit ''always'', Lit ''never'', Lit ''the'', Lit ''a'', Lit ''an'']"

text \<open>\<^verbatim>\<open>/mark\s+(?:as\s+)?['"]?([A-Z_]+)['"]?/i\<close>.\<close>

definition tagPattern :: regex where
  "tagPattern =
     seq [Lit ''mark'', spaces, Opt (seq [Lit ''as'', spaces]), Opt (Cls quote),
          Group (Plus tagChars), Opt (Cls quote)]"

text \<open>
  Reading \<open>match[1]\<close> when the group has not taken part gives \<open>undefined\<close>, and the
  method call on it throws.
\<close>

datatype error = TypeError

text \<open>The words of the captured clause: lower case, stop words cut out, trimmed, split
  at white space, the words longer than 2 kept.\<close>

definition clauseWords :: "string \<Rightarrow> string list" where
  "clauseWords m1 =
     filter (\<lambda>w. length w > 2)
       (split_re False spaces (trim (removeAll_re False clauseStop (toLowerCase m1))))"

text \<open>The loop over \<open>triggerPatterns\<close>: the first pattern that matches decides
  (\<open>break\<close>); with no match \<open>triggerKeywords\<close> stays empty.\<close>

fun triggerLoop :: "regex list \<Rightarrow> string \<Rightarrow> error + string list" where
  "triggerLoop [] promptText = Inr []"
| "triggerLoop (pattern # patterns) promptText =
     (case match_re True pattern promptText of
        None \<Rightarrow> triggerLoop patterns promptText
      | Some None \<Rightarrow> Inl TypeError
      | Some (Some m1) \<Rightarrow> Inr (clauseWords m1))"

text \<open>The fallback: the words of the lower-case prompt longer than 3, the first three.\<close>

definition fallbackWords :: "string \<Rightarrow> string list" where
  "fallbackWords promptLower =
     take 3
       (filter (\<lambda>w. length w > 3)
          (split_re False (Plus (Not (OneOf letters_az)))
             (removeAll_re False fallbackStop promptLower)))"

text \<open>The three \<open>if\<close> statements that set \<open>actionType\<close> and \<open>reason\<close>, one after the
  other.\<close>

definition actionOf :: "string \<Rightarrow> ActionType \<times> string" where
  "actionOf promptLower =
     (let (actionType, reasonText) = (Escalate, ''Dynamic rule triggered'');
          (actionType, reasonText) =
            (if includes_str promptLower ''escalate'' \<or> includes_str promptLower ''needs_attention''
             then (Escalate, ''Requires manual review per dynamic rule'')
             else (actionType, reasonText));
          (actionType, reasonText) =
            (if includes_str promptLower ''do not''
                \<or> includes_str promptLower (''don'' @ [CHR 0x27] @ ''t'')
                \<or> includes_str promptLower ''block''
             then (Block, ''Action blocked by dynamic rule'')
             else (actionType, reasonText));
          actionType =
            (if includes_str promptLower ''redirect'' \<or> includes_str promptLower ''route to''
             then Redirect else actionType)
      in (actionType, reasonText))"

definition tagOf :: "string \<Rightarrow> error + string option" where
  "tagOf promptText =
     (case match_re True tagPattern promptText of
        None \<Rightarrow> Inr None
      | Some None \<Rightarrow> Inl TypeError
      | Some (Some m1) \<Rightarrow> Inr (Some (toUpperCase m1)))"

text \<open>
  \<open>parsePrompt\<close>. The id (built from \<open>Date.now()\<close> and \<open>Math.random()\<close>) and the time
  stamp \<open>createdAt\<close> come from outside and are arguments. The result type of the source is
  \<open>MASUpdateRule | null\<close>.
\<close>

definition parsePrompt :: "string \<Rightarrow> string \<Rightarrow> string \<Rightarrow> error + MASUpdateRule option" where
  "parsePrompt newId now promptText =
     (let promptLower = toLowerCase promptText
      in case triggerLoop triggerPatterns promptText of
           Inl e \<Rightarrow> Inl e
         | Inr words \<Rightarrow>
             let triggerKeywords =
                   (if length words = 0 then fallbackWords promptLower else words);
                 (actionType, reasonText) = actionOf promptLower
             in case tagOf promptText of
                  Inl e \<Rightarrow> Inl e
                | Inr tagText \<Rightarrow>
                    Inr (Some
                      \<lparr>id_rule = newId,
                       prompt = promptText,
                       trigger = \<lparr>keywords_trigger = triggerKeywords, intent = None\<rparr>,
                       action = \<lparr>type_action = actionType, reason = Some reasonText, tag = tagText,
                                 targetAgent = None\<rparr>,
                       createdAt = now,
                       active = True\<rparr>))"

text \<open>\<open>addRule\<close>: a rule that is not \<open>null\<close> is pushed; the rule (or \<open>null\<close>) is returned.\<close>

definition addRule :: "store \<Rightarrow> string \<Rightarrow> string \<Rightarrow> string \<Rightarrow> error + (MASUpdateRule option \<times> store)" where
  "addRule rules newId now promptText =
     (case parsePrompt newId now promptText of
        Inl e \<Rightarrow> Inl e
      | Inr rule \<Rightarrow>
          (case rule of
             Some r \<Rightarrow> Inr (rule, rules @ [r])
           | None \<Rightarrow> Inr (rule, rules)))"

section \<open>Sequences of calls, notions of the specification, example rules\<close>

text \<open>
  A later state of the store: the calls of \<open>addRule\<close> and \<open>deactivateRule\<close> made one
  after the other. A call of \<open>addRule\<close> that throws leaves the store as it is.
\<close>

datatype call = AddRule string string string | DeactivateRule string

fun calls :: "store \<Rightarrow> call list \<Rightarrow> store" where
  "calls rules [] = rules"
| "calls rules (AddRule newId now promptText # cs) =
     (case addRule rules newId now promptText of
        Inl e \<Rightarrow> calls rules cs
      | Inr (rule, rules') \<Rightarrow> calls rules' cs)"
| "calls rules (DeactivateRule ruleId # cs) = calls (snd (deactivateRule rules ruleId)) cs"

text \<open>
  The stores the program can be in: the empty store of the singleton, and every store
  that a call of \<open>addRule\<close>, \<open>deactivateRule\<close> or \<open>clear\<close> makes from one of them.
  \<open>lowerKeywords\<close>: every keyword of every rule is in lower case.
\<close>

inductive reachable :: "store \<Rightarrow> bool" where
  initial: "reachable []"
| added: "reachable rules \<Longrightarrow> addRule rules newId now promptText = Inr (rule, rules')
           \<Longrightarrow> reachable rules'"
| deactivated: "reachable rules \<Longrightarrow> deactivateRule rules ruleId = (ok, rules')
           \<Longrightarrow> reachable rules'"
| cleared: "reachable rules \<Longrightarrow> reachable (clear rules)"

definition lowerKeywords :: "store \<Rightarrow> bool" where
  "lowerKeywords rules =
     (\<forall>r \<in> set rules. \<forall>kw \<in> set (keywords_trigger (trigger r)). toLowerCase kw = kw)"

text \<open>
  The specification's match of a keyword against a message: a substring match that
  ignores case on both sides.
\<close>

definition ciSubstring :: "string \<Rightarrow> string \<Rightarrow> bool" where
  "ciSubstring message kw = includes_str (toLowerCase message) (toLowerCase kw)"

text \<open>The rules R1 and R2 of the specification's scenario, and a rule without keywords.\<close>

definition ruleR1 :: MASUpdateRule where
  "ruleR1 =
     \<lparr>id_rule = ''R1'', prompt = ''address'',
      trigger = \<lparr>keywords_trigger = [''address''], intent = None\<rparr>,
      action = \<lparr>type_action = Escalate, reason = Some ''Dynamic rule triggered'', tag = None,
                targetAgent = None\<rparr>,
      createdAt = ''t1'', active = True\<rparr>"

definition ruleR2 :: MASUpdateRule where
  "ruleR2 =
     \<lparr>id_rule = ''R2'', prompt = ''address update'',
      trigger = \<lparr>keywords_trigger = [''address'', ''update''], intent = None\<rparr>,
      action = \<lparr>type_action = Block, reason = Some ''Action blocked by dynamic rule'',
                tag = None, targetAgent = None\<rparr>,
      createdAt = ''t2'', active = True\<rparr>"

definition ruleNoKeywords :: MASUpdateRule where
  "ruleNoKeywords =
     \<lparr>id_rule = ''R0'', prompt = [],
      trigger = \<lparr>keywords_trigger = [], intent = None\<rparr>,
      action = \<lparr>type_action = Escalate, reason = Some ''Dynamic rule triggered'', tag = None,
                targetAgent = None\<rparr>,
      createdAt = ''t0'', active = True\<rparr>"

text \<open>
  What it means that a text \<open>u\<close> matches a pattern, with the text of group 1 before
  (\<open>c\<close>) and after (\<open>c'\<close>): the reading of a pattern that does not depend on the order
  in which the matcher tries the alternatives.
\<close>

fun matches :: "bool \<Rightarrow> regex \<Rightarrow> string \<Rightarrow> string option \<Rightarrow> string option \<Rightarrow> bool" where
  "matches ic (Lit w) u c c' =
     (c' = c \<and> length u = length w \<and> map (canon ic) u = map (canon ic) w)"
| "matches ic (Cls k) u c c' = (c' = c \<and> (\<exists>x. u = [x] \<and> cmatch ic k x))"
| "matches ic (Plus k) u c c' = (c' = c \<and> u \<noteq> [] \<and> list_all (cmatch ic k) u)"
| "matches ic (Opt r) u c c' = ((u = [] \<and> c' = c) \<or> matches ic r u c c')"
| "matches ic (Seq a b) u c c' =
     (\<exists>v w c1. u = v @ w \<and> matches ic a v c c1 \<and> matches ic b w c1 c')"
| "matches ic (Alt a b) u c c' = (matches ic a u c c' \<or> matches ic b u c c')"
| "matches ic (Group r) u c c' = ((\<exists>c1. matches ic r u c c1) \<and> c' = Some u)"

text \<open>
  The phrase \<open>mark as 'X'\<close> in the specification's words: the word "mark" in any case,
  white space, optionally "as" in any case with white space behind it, optionally one
  quote character, and a run \<open>x\<close> of letters and underscores. \<open>markPhrase w a x\<close>: the
  text \<open>w\<close> is such a phrase, with the optional "as" part \<open>a\<close> (empty when it is left out)
  and ending in the run \<open>x\<close>.
\<close>

definition isQuote :: "char \<Rightarrow> bool" where
  "isQuote c = (c = CHR 0x27 \<or> c = CHR 0x22)"

definition isTagChar :: "char \<Rightarrow> bool" where
  "isTagChar c = (c \<in> set letters_AZ \<or> c \<in> set letters_az \<or> c = CHR ''_'')"

definition ciEqual :: "string \<Rightarrow> string \<Rightarrow> bool" where
  "ciEqual u v = (toLowerCase u = toLowerCase v)"

definition spaceRun :: "string \<Rightarrow> bool" where
  "spaceRun u = (u \<noteq> [] \<and> list_all isSpace u)"

definition tagRun :: "string \<Rightarrow> bool" where
  "tagRun u = (u \<noteq> [] \<and> list_all isTagChar u)"

definition optQuote :: "string \<Rightarrow> bool" where
  "optQuote q = (q = [] \<or> (\<exists>c. q = [c] \<and> isQuote c))"

definition optAs :: "string \<Rightarrow> bool" where
  "optAs a = (a = [] \<or> (\<exists>a1 a2. a = a1 @ a2 \<and> ciEqual a1 ''as'' \<and> spaceRun a2))"

definition markPhrase :: "string \<Rightarrow> string \<Rightarrow> string \<Rightarrow> bool" where
  "markPhrase w a x =
     (\<exists>m sp q. w = m @ sp @ a @ q @ x \<and> ciEqual m ''mark'' \<and> spaceRun sp \<and> optAs a
        \<and> optQuote q \<and> tagRun x)"

text \<open>
  \<open>captures r\<close>: every way through \<open>r\<close> goes through the capturing group, so a match of
  \<open>r\<close> has a defined \<open>match[1]\<close>.
\<close>

fun captures :: "regex \<Rightarrow> bool" where
  "captures (Group r) = True"
| "captures (Seq a b) = (captures a \<or> captures b)"
| "captures (Alt a b) = (captures a \<and> captures b)"
| "captures (Lit w) = False"
| "captures (Cls k) = False"
| "captures (Plus k) = False"
| "captures (Opt r) = False"

section \<open>Facts about strings\<close>

lemma startsWith_iff: "startsWith s k \<longleftrightarrow> (\<exists>post. s = k @ post)"
  by (induction s k rule: startsWith.induct) auto

lemma includes_str_iff: "includes_str s k \<longleftrightarrow> (\<exists>pre post. s = pre @ k @ post)"
proof (induction s)
  case Nil
  then show ?case by simp
next
  case (Cons c cs)
  show ?case
  proof
    assume "includes_str (c # cs) k"
    then consider "startsWith (c # cs) k" | "includes_str cs k" by auto
    then show "\<exists>pre post. c # cs = pre @ k @ post"
    proof cases
      case 1
      then obtain post where "c # cs = k @ post" by (auto simp: startsWith_iff)
      then have "c # cs = [] @ k @ post" by simp
      then show ?thesis by blast
    next
      case 2
      then obtain pre post where "cs = pre @ k @ post" using Cons.IH by blast
      then have "c # cs = (c # pre) @ k @ post" by simp
      then show ?thesis by blast
    qed
  next
    assume "\<exists>pre post. c # cs = pre @ k @ post"
    then obtain pre post where e: "c # cs = pre @ k @ post" by blast
    show "includes_str (c # cs) k"
    proof (cases pre)
      case Nil
      with e have "startsWith (c # cs) k" by (auto simp: startsWith_iff)
      then show ?thesis by simp
    next
      case (Cons p ps)
      with e have "cs = ps @ k @ post" by simp
      then have "includes_str cs k" using Cons.IH by blast
      then show ?thesis by simp
    qed
  qed
qed

lemma translate_cases:
  "translate as bs c = c \<or> (\<exists>i < length as. i < length bs \<and> translate as bs c = bs ! i)"
proof (induction as bs c rule: translate.induct)
  case (1 a as b bs c)
  show ?case
  proof (cases "c = a")
    case True
    then have "0 < length (a # as) \<and> 0 < length (b # bs)
       \<and> translate (a # as) (b # bs) c = (b # bs) ! 0" by simp
    then show ?thesis by blast
  next
    case False
    with 1 consider "translate as bs c = c"
      | i where "i < length as" "i < length bs" "translate as bs c = bs ! i" by blast
    then show ?thesis
    proof cases
      case 1
      with False show ?thesis by simp
    next
      case 2
      with False have "Suc i < length (a # as) \<and> Suc i < length (b # bs)
        \<and> translate (a # as) (b # bs) c = (b # bs) ! Suc i" by simp
      then show ?thesis by blast
    qed
  qed
qed simp_all

lemma translate_fixed: "c \<notin> set as \<Longrightarrow> translate as bs c = c"
  by (induction as bs c rule: translate.induct) auto

lemma lowerLetters_not_upper: "set lowerLetters \<inter> set upperLetters = {}"
  by (simp add: lowerLetters_def upperLetters_def)

lemma lowerChar_idem: "lowerChar (lowerChar c) = lowerChar c"
proof -
  from translate_cases [of upperLetters lowerLetters c]
  consider "lowerChar c = c" | "lowerChar c \<in> set lowerLetters"
    by (auto simp: lowerChar_def)
  then show ?thesis
  proof cases
    case 1
    then show ?thesis by simp
  next
    case 2
    with lowerLetters_not_upper have "lowerChar c \<notin> set upperLetters" by blast
    then show ?thesis by (simp add: lowerChar_def translate_fixed)
  qed
qed

lemma toLowerCase_idem: "toLowerCase (toLowerCase s) = toLowerCase s"
  by (simp add: toLowerCase_def lowerChar_idem)

section \<open>Facts about the store\<close>

lemma checkLoop_find:
  "checkLoop m rules =
     find (\<lambda>r. active r \<and> (\<exists>kw \<in> set (keywords_trigger (trigger r)). includes_str m kw)) rules"
  by (induction rules) (auto simp: filter_empty_conv Let_def)

lemma checkMessage_find:
  "checkMessage rules message =
     find (\<lambda>r. active r \<and> (\<exists>kw \<in> set (keywords_trigger (trigger r)).
                 includes_str (toLowerCase message) kw)) rules"
  by (simp add: checkMessage_def checkLoop_find)

lemma checkMessage_active: "checkMessage rules message = Some r \<Longrightarrow> active r"
  by (auto simp: checkMessage_find find_Some_iff)

section \<open>The claims about \<open>applyDynamicRules\<close> and rules without keywords\<close>

text \<open>
  C8. The result of \<open>applyDynamicRules\<close> never has \<open>blocked\<close> and \<open>escalate\<close> both true.
\<close>

theorem applyDynamicRules_exclusive:
  "\<not> (blocked (applyDynamicRules rules message) \<and> escalate (applyDynamicRules rules message))"
  by (auto simp: applyDynamicRules_def split: option.splits)

text \<open>
  C9. A rule with an empty keyword list is never the rule \<open>checkMessage\<close> returns,
  whatever the store and the message, also when it is active; put in front of a store it
  changes no answer, and alone in the store it matches nothing.
\<close>

theorem empty_keywords_never_match:
  "keywords_trigger (trigger r) = [] \<Longrightarrow>
     checkMessage rules message \<noteq> Some r
     \<and> checkMessage (r # rules) message = checkMessage rules message
     \<and> checkMessage [r] message = None"
  by (auto simp: checkMessage_find find_Some_iff)

theorem empty_keywords_never_match_witness:
  "active ruleNoKeywords \<and> keywords_trigger (trigger ruleNoKeywords) = []
   \<and> checkMessage [ruleR1, ruleNoKeywords] ''hello'' \<noteq> Some ruleNoKeywords
   \<and> checkMessage [ruleNoKeywords, ruleR1] ''my address'' = checkMessage [ruleR1] ''my address''
   \<and> checkMessage [ruleNoKeywords] ''hello'' = None"
proof -
  have k: "keywords_trigger (trigger ruleNoKeywords) = []"
    by (simp add: ruleNoKeywords_def)
  have a: "active ruleNoKeywords"
    by (simp add: ruleNoKeywords_def)
  from empty_keywords_never_match [OF k, of "[ruleR1, ruleNoKeywords]" "''hello''"]
    empty_keywords_never_match [OF k, of "[ruleR1]" "''my address''"] k a
  show ?thesis by simp
qed

text \<open>
  C10. When no keyword of an active rule is a substring of the lower-case message (the
  test \<open>checkMessage\<close> makes), \<open>applyDynamicRules\<close> returns \<open>blocked = false\<close>,
  \<open>escalate = false\<close> and no \<open>tag\<close>, \<open>reason\<close> or \<open>rule\<close>.
\<close>

theorem applyDynamicRules_no_hit:
  "(\<forall>r \<in> set rules. active r \<longrightarrow>
      (\<forall>kw \<in> set (keywords_trigger (trigger r)). \<not> includes_str (toLowerCase message) kw))
   \<Longrightarrow> applyDynamicRules rules message =
        \<lparr>blocked = False, escalate = False, tag_res = None, reason_res = None, rule_res = None\<rparr>"
proof -
  assume h: "\<forall>r \<in> set rules. active r \<longrightarrow>
      (\<forall>kw \<in> set (keywords_trigger (trigger r)). \<not> includes_str (toLowerCase message) kw)"
  then have "checkMessage rules message = None"
    by (auto simp: checkMessage_find find_None_iff)
  then show ?thesis by (simp add: applyDynamicRules_def)
qed

theorem applyDynamicRules_no_hit_witness:
  "applyDynamicRules [ruleR1, ruleR2] ''Where is my order?'' =
     \<lparr>blocked = False, escalate = False, tag_res = None, reason_res = None, rule_res = None\<rparr>"
proof -
  have n: "\<not> includes_str (toLowerCase ''Where is my order?'') ''address''"
    "\<not> includes_str (toLowerCase ''Where is my order?'') ''update''"
    by code_simp+
  have "\<forall>r \<in> set [ruleR1, ruleR2]. active r \<longrightarrow>
      (\<forall>kw \<in> set (keywords_trigger (trigger r)).
         \<not> includes_str (toLowerCase ''Where is my order?'') kw)"
    using n by (simp add: ruleR1_def ruleR2_def)
  then show ?thesis by (rule applyDynamicRules_no_hit)
qed

section \<open>The claim about \<open>deactivateRule\<close>\<close>

lemma length_deactivateFirst: "length (deactivateFirst x rules) = length rules"
  by (induction rules) auto

lemma deactivateFirst_update:
  "\<exists>r \<in> set rules. id_rule r = x \<Longrightarrow>
   \<exists>i < length rules. id_rule (rules ! i) = x \<and> (\<forall>j < i. id_rule (rules ! j) \<noteq> x)
      \<and> deactivateFirst x rules = rules[i := (rules ! i)\<lparr>active := False\<rparr>]"
proof (induction rules)
  case Nil
  then show ?case by simp
next
  case (Cons r rs)
  show ?case
  proof (cases "id_rule r = x")
    case True
    then have "id_rule ((r # rs) ! 0) = x \<and> (\<forall>j < 0. id_rule ((r # rs) ! j) \<noteq> x)
      \<and> deactivateFirst x (r # rs) = (r # rs)[0 := ((r # rs) ! 0)\<lparr>active := False\<rparr>]"
      by simp
    then show ?thesis by blast
  next
    case False
    with Cons.prems have "\<exists>r \<in> set rs. id_rule r = x" by auto
    from Cons.IH [OF this] obtain i where i: "i < length rs" "id_rule (rs ! i) = x"
      "\<forall>j < i. id_rule (rs ! j) \<noteq> x" "deactivateFirst x rs = rs[i := (rs ! i)\<lparr>active := False\<rparr>]"
      by blast
    have "\<forall>j < Suc i. id_rule ((r # rs) ! j) \<noteq> x"
      using False i(3) by (auto simp: less_Suc_eq_0_disj)
    with i False have "Suc i < length (r # rs) \<and> id_rule ((r # rs) ! Suc i) = x
      \<and> (\<forall>j < Suc i. id_rule ((r # rs) ! j) \<noteq> x)
      \<and> deactivateFirst x (r # rs) = (r # rs)[Suc i := ((r # rs) ! Suc i)\<lparr>active := False\<rparr>]"
      by simp
    then show ?thesis by blast
  qed
qed

lemma inactive_update: "\<not> active (r :: MASUpdateRule) \<Longrightarrow> r\<lparr>active := False\<rparr> = r"
  by (cases r) simp

lemma deactivateFirst_inactive_nth:
  "i < length rules \<Longrightarrow> \<not> active (rules ! i) \<Longrightarrow> deactivateFirst x rules ! i = rules ! i"
proof (induction rules arbitrary: i)
  case Nil
  then show ?case by simp
next
  case (Cons r rs)
  then show ?case by (cases i) (auto simp: inactive_update)
qed

lemma parsePrompt_Some: "parsePrompt newId now p = Inr rule \<Longrightarrow> rule \<noteq> None"
  by (auto simp: parsePrompt_def Let_def split: sum.splits prod.splits)

lemma addRule_keeps:
  "addRule rules newId now p = Inr (rule, rules') \<Longrightarrow> i < length rules \<Longrightarrow>
     i < length rules' \<and> rules' ! i = rules ! i"
  by (auto simp: addRule_def nth_append split: sum.splits option.splits)

lemma calls_keeps_inactive:
  "i < length rules \<Longrightarrow> \<not> active (rules ! i) \<Longrightarrow>
     i < length (calls rules cs) \<and> calls rules cs ! i = rules ! i"
proof (induction cs arbitrary: rules)
  case Nil
  then show ?case by simp
next
  case (Cons c cs)
  show ?case
  proof (cases c)
    case (AddRule newId now p)
    show ?thesis
    proof (cases "addRule rules newId now p")
      case (Inl e)
      with AddRule Cons show ?thesis by simp
    next
      case (Inr res)
      obtain rule rules' where res: "res = (rule, rules')" by (cases res)
      from addRule_keeps [OF Inr [unfolded res] Cons.prems(1)]
      have k: "i < length rules'" "rules' ! i = rules ! i" by simp_all
      with Cons.prems have "\<not> active (rules' ! i)" by simp
      from Cons.IH [OF k(1) this] k AddRule Inr res show ?thesis by simp
    qed
  next
    case (DeactivateRule x)
    define rules' where "rules' = snd (deactivateRule rules x)"
    have k: "i < length rules'" "rules' ! i = rules ! i"
      using Cons.prems
      by (auto simp: rules'_def deactivateRule_def length_deactivateFirst
            deactivateFirst_inactive_nth split: option.splits)
    with Cons.prems have "\<not> active (rules' ! i)" by simp
    from Cons.IH [OF k(1) this] k DeactivateRule show ?thesis by (simp add: rules'_def)
  qed
qed

text \<open>
  C6. \<open>deactivateRule\<close> returns true exactly when a rule of the store has the id. Then
  the new store is the old one with the \<open>active\<close> flag of the first rule with that id set to
  false: no rule is removed and no other rule or field is changed. The rule stays in
  \<open>getRules\<close> at its place, also after any later calls of \<open>addRule\<close> and
  \<open>deactivateRule\<close>, and \<open>checkMessage\<close> never returns it, whatever the message.
  When no rule has the id the store is unchanged.
\<close>

theorem deactivateRule_soft_delete:
  assumes "deactivateRule rules ruleId = (ok, rules')"
  shows "(ok \<longleftrightarrow> (\<exists>r \<in> set rules. id_rule r = ruleId))
     \<and> (\<not> ok \<longrightarrow> rules' = rules)
     \<and> (ok \<longrightarrow>
          (\<exists>i < length rules.
              id_rule (rules ! i) = ruleId \<and> (\<forall>j < i. id_rule (rules ! j) \<noteq> ruleId)
            \<and> rules' = rules[i := (rules ! i)\<lparr>active := False\<rparr>]
            \<and> getRules rules' ! i = (rules ! i)\<lparr>active := False\<rparr>
            \<and> (\<forall>cs message.
                  i < length (getRules (calls rules' cs))
                \<and> getRules (calls rules' cs) ! i = (rules ! i)\<lparr>active := False\<rparr>
                \<and> checkMessage (calls rules' cs) message \<noteq> Some ((rules ! i)\<lparr>active := False\<rparr>))))"
proof (cases "\<exists>r \<in> set rules. id_rule r = ruleId")
  case False
  then have "find (\<lambda>r. id_rule r = ruleId) rules = None"
    by (simp add: find_None_iff)
  with assms False show ?thesis by (simp add: deactivateRule_def)
next
  case True
  then have "find (\<lambda>r. id_rule r = ruleId) rules \<noteq> None"
    by (auto simp: find_None_iff)
  with assms have ok: "ok" and r': "rules' = deactivateFirst ruleId rules"
    by (auto simp: deactivateRule_def split: option.splits)
  from deactivateFirst_update [OF True] obtain i where i: "i < length rules"
    "id_rule (rules ! i) = ruleId" "\<forall>j < i. id_rule (rules ! j) \<noteq> ruleId"
    "deactivateFirst ruleId rules = rules[i := (rules ! i)\<lparr>active := False\<rparr>]"
    by blast
  let ?d = "(rules ! i)\<lparr>active := False\<rparr>"
  have li: "i < length rules'" using i r' by simp
  have at: "rules' ! i = ?d" using i r' by simp
  have later: "i < length (getRules (calls rules' cs))
      \<and> getRules (calls rules' cs) ! i = ?d
      \<and> checkMessage (calls rules' cs) message \<noteq> Some ?d" for cs message
  proof -
    have "\<not> active (rules' ! i)" using at by simp
    from calls_keeps_inactive [OF li this, of cs] at
    have "i < length (calls rules' cs)" "calls rules' cs ! i = ?d" by simp_all
    moreover have "checkMessage (calls rules' cs) message \<noteq> Some ?d"
      using checkMessage_active [of "calls rules' cs" message ?d] by auto
    ultimately show ?thesis by (simp add: getRules_def)
  qed
  have "id_rule (rules ! i) = ruleId \<and> (\<forall>j < i. id_rule (rules ! j) \<noteq> ruleId)
            \<and> rules' = rules[i := ?d]
            \<and> getRules rules' ! i = ?d
            \<and> (\<forall>cs message.
                  i < length (getRules (calls rules' cs))
                \<and> getRules (calls rules' cs) ! i = ?d
                \<and> checkMessage (calls rules' cs) message \<noteq> Some ?d)"
    using i r' at later by (simp add: getRules_def)
  with i(1) ok True show ?thesis by blast
qed

theorem deactivateRule_soft_delete_witness:
  "deactivateRule [ruleR1, ruleR2] ''R1'' = (True, [ruleR1\<lparr>active := False\<rparr>, ruleR2])
   \<and> checkMessage [ruleR1\<lparr>active := False\<rparr>, ruleR2] ''update my address'' = Some ruleR2
   \<and> deactivateRule [ruleR1, ruleR2] ''R7'' = (False, [ruleR1, ruleR2])"
proof -
  have e: "deactivateRule [ruleR1, ruleR2] ''R1'' = (True, [ruleR1\<lparr>active := False\<rparr>, ruleR2])"
    by (simp add: deactivateRule_def ruleR1_def ruleR2_def)
  have n: "deactivateRule [ruleR1, ruleR2] ''R7'' = (False, [ruleR1, ruleR2])"
    by (simp add: deactivateRule_def ruleR1_def ruleR2_def)
  have h: "includes_str (toLowerCase ''update my address'') ''address''" by code_simp
  have c: "checkMessage [ruleR1\<lparr>active := False\<rparr>, ruleR2] ''update my address'' = Some ruleR2"
    using h by (simp add: checkMessage_find ruleR1_def ruleR2_def)
  from deactivateRule_soft_delete [OF e] deactivateRule_soft_delete [OF n] e n c
  show ?thesis by simp
qed

section \<open>\<open>parsePrompt\<close> never throws\<close>

lemma ms_keeps_cap:
  "(s', c') \<in> set (ms ic r (s, c)) \<Longrightarrow> c \<noteq> None \<Longrightarrow> c' \<noteq> None"
proof (induction r arbitrary: s c s' c')
  case (Seq a b)
  from Seq.prems(1) obtain s1 c1 where 1: "(s1, c1) \<in> set (ms ic a (s, c))"
    and 2: "(s', c') \<in> set (ms ic b (s1, c1))" by auto
  from Seq.IH(1) [OF 1 Seq.prems(2)] have "c1 \<noteq> None" .
  from Seq.IH(2) [OF 2 this] show ?case .
qed (auto split: if_splits list.splits)

lemma ms_sets_cap:
  "captures r \<Longrightarrow> (s', c') \<in> set (ms ic r (s, c)) \<Longrightarrow> c' \<noteq> None"
proof (induction r arbitrary: s c s' c')
  case (Seq a b)
  from Seq.prems(2) obtain s1 c1 where 1: "(s1, c1) \<in> set (ms ic a (s, c))"
    and 2: "(s', c') \<in> set (ms ic b (s1, c1))" by auto
  show ?case
  proof (cases "captures a")
    case True
    from Seq.IH(1) [OF True 1] have "c1 \<noteq> None" .
    with 2 show ?thesis by (rule ms_keeps_cap)
  next
    case False
    with Seq.prems(1) have "captures b" by simp
    from Seq.IH(2) [OF this 2] show ?thesis .
  qed
qed (auto split: if_splits list.splits)

lemma exec_cap: "captures r \<Longrightarrow> exec ic r s = Some (s', c') \<Longrightarrow> c' \<noteq> None"
  using ms_sets_cap [of r s' c' ic s None]
  by (auto simp: exec_def split: list.splits)

lemma match_re_cap: "captures r \<Longrightarrow> match_re ic r s \<noteq> Some None"
proof (induction s)
  case Nil
  then show ?case using exec_cap [of r ic "[]"] by (cases "exec ic r []") auto
next
  case (Cons x xs)
  then show ?case using exec_cap [of r ic "x # xs"]
    by (cases "exec ic r (x # xs)") auto
qed

lemma triggerLoop_total:
  "\<forall>r \<in> set ps. captures r \<Longrightarrow> \<exists>ws. triggerLoop ps p = Inr ws"
proof (induction ps)
  case Nil
  then show ?case by simp
next
  case (Cons r ps)
  then have "match_re True r p \<noteq> Some None" by (simp add: match_re_cap)
  with Cons show ?case by (cases "match_re True r p") auto
qed

lemma captures_triggerPatterns: "\<forall>r \<in> set triggerPatterns. captures r"
  by (simp add: triggerPatterns_def notComma_def spaces_def)

lemma captures_tagPattern: "captures tagPattern"
  by (simp add: tagPattern_def)

lemma tagOf_total: "\<exists>t. tagOf p = Inr t"
  using match_re_cap [OF captures_tagPattern, of True p]
  by (cases "match_re True tagPattern p") (auto simp: tagOf_def)

lemma parsePrompt_total:
  "\<exists>ws t r. triggerLoop triggerPatterns p = Inr ws \<and> tagOf p = Inr t
     \<and> parsePrompt newId now p = Inr (Some r)
     \<and> id_rule r = newId \<and> prompt r = p \<and> createdAt r = now \<and> active r
     \<and> keywords_trigger (trigger r) = (if ws = [] then fallbackWords (toLowerCase p) else ws)
     \<and> intent (trigger r) = None
     \<and> type_action (action r) = fst (actionOf (toLowerCase p))
     \<and> reason (action r) = Some (snd (actionOf (toLowerCase p)))
     \<and> tag (action r) = t \<and> targetAgent (action r) = None"
proof -
  obtain ws where ws: "triggerLoop triggerPatterns p = Inr ws"
    using triggerLoop_total [OF captures_triggerPatterns] by blast
  obtain t where t: "tagOf p = Inr t" using tagOf_total by blast
  define r where "r =
         \<lparr>id_rule = newId, prompt = p,
          trigger = \<lparr>keywords_trigger = (if ws = [] then fallbackWords (toLowerCase p) else ws),
                     intent = None\<rparr>,
          action = \<lparr>type_action = fst (actionOf (toLowerCase p)),
                    reason = Some (snd (actionOf (toLowerCase p))), tag = t, targetAgent = None\<rparr>,
          createdAt = now, active = True\<rparr>"
  have "parsePrompt newId now p = Inr (Some r)"
    by (simp add: parsePrompt_def ws t r_def Let_def split: prod.splits)
  moreover have "id_rule r = newId" "prompt r = p" "createdAt r = now" "active r"
    "keywords_trigger (trigger r) = (if ws = [] then fallbackWords (toLowerCase p) else ws)"
    "intent (trigger r) = None" "type_action (action r) = fst (actionOf (toLowerCase p))"
    "reason (action r) = Some (snd (actionOf (toLowerCase p)))"
    "tag (action r) = t" "targetAgent (action r) = None"
    by (simp_all add: r_def)
  ultimately show ?thesis using ws t by blast
qed

lemma addRule_total:
  "\<exists>ws t r. triggerLoop triggerPatterns p = Inr ws \<and> tagOf p = Inr t
     \<and> parsePrompt newId now p = Inr (Some r)
     \<and> addRule rules newId now p = Inr (Some r, rules @ [r])
     \<and> id_rule r = newId \<and> prompt r = p \<and> createdAt r = now \<and> active r
     \<and> keywords_trigger (trigger r) = (if ws = [] then fallbackWords (toLowerCase p) else ws)
     \<and> type_action (action r) = fst (actionOf (toLowerCase p))
     \<and> reason (action r) = Some (snd (actionOf (toLowerCase p)))
     \<and> tag (action r) = t"
proof -
  from parsePrompt_total [of p newId now] obtain ws t r where
    h: "triggerLoop triggerPatterns p = Inr ws" "tagOf p = Inr t"
      "parsePrompt newId now p = Inr (Some r)"
      "id_rule r = newId" "prompt r = p" "createdAt r = now" "active r"
      "keywords_trigger (trigger r) = (if ws = [] then fallbackWords (toLowerCase p) else ws)"
      "type_action (action r) = fst (actionOf (toLowerCase p))"
      "reason (action r) = Some (snd (actionOf (toLowerCase p)))"
      "tag (action r) = t"
    by blast
  have "addRule rules newId now p = Inr (Some r, rules @ [r])"
    by (simp add: addRule_def h(3))
  with h show ?thesis by blast
qed

lemma find_append_None: "find P xs = None \<Longrightarrow> find P (xs @ ys) = find P ys"
  by (induction xs) (auto split: if_splits)

lemma checkMessage_append_new:
  "checkMessage rules message = None \<Longrightarrow>
     checkMessage (rules @ [r]) message = checkMessage [r] message"
  by (simp add: checkMessage_find find_append_None)

section \<open>The claims about \<open>parsePrompt\<close> and \<open>addRule\<close>\<close>

text \<open>
  C2, as the code has it. \<open>addRule\<close> rejects no prompt: for every prompt, also one from
  which neither the patterns nor the fallback give a keyword, \<open>parsePrompt\<close> returns a
  rule, and \<open>addRule\<close> appends it to the store with \<open>active = true\<close> and returns it
  (never \<open>null\<close>). Its keywords are the words of the first matching pattern, or the
  fallback words when those are none.
\<close>

theorem addRule_never_rejects:
  "\<exists>ws r. triggerLoop triggerPatterns p = Inr ws
      \<and> addRule rules newId now p = Inr (Some r, rules @ [r])
      \<and> active r \<and> prompt r = p \<and> id_rule r = newId
      \<and> keywords_trigger (trigger r) = (if ws = [] then fallbackWords (toLowerCase p) else ws)"
  using addRule_total [of p newId now rules] by blast

text \<open>
  C2, as the claim states it, fails: the prompt "if the" gives no keyword in either
  branch, and \<open>addRule\<close> returns a rule and stores it, active and with no keyword.
\<close>

theorem addRule_stores_rule_without_keywords:
  "triggerLoop triggerPatterns ''if the'' = Inr []
   \<and> fallbackWords (toLowerCase ''if the'') = []
   \<and> (\<exists>r. addRule [] ''rule_1'' ''2026-01-01T00:00:00.000Z'' ''if the'' = Inr (Some r, [r])
          \<and> active r \<and> keywords_trigger (trigger r) = [])"
proof -
  have 1: "triggerLoop triggerPatterns ''if the'' = Inr []" by code_simp
  have 2: "fallbackWords (toLowerCase ''if the'') = []" by code_simp
  from addRule_total [of "''if the''" "''rule_1''" "''2026-01-01T00:00:00.000Z''" "[]"]
  obtain ws r where h: "triggerLoop triggerPatterns ''if the'' = Inr ws"
    "addRule [] ''rule_1'' ''2026-01-01T00:00:00.000Z'' ''if the'' = Inr (Some r, [] @ [r])"
    "active r"
    "keywords_trigger (trigger r) = (if ws = [] then fallbackWords (toLowerCase ''if the'') else ws)"
    by blast
  from h(1) 1 have "ws = []" by simp
  with h 2 have "addRule [] ''rule_1'' ''2026-01-01T00:00:00.000Z'' ''if the'' = Inr (Some r, [r])
          \<and> active r \<and> keywords_trigger (trigger r) = []" by simp
  with 1 2 show ?thesis by blast
qed

text \<open>
  C3, as the code has it. For a prompt whose lower-case text has an ESCALATE phrase
  ("escalate", "needs_attention") and a BLOCK phrase ("do not", "don't", "block"), the
  action type is BLOCK when the text has neither "redirect" nor "route to", and REDIRECT
  when it has one of them: the third \<open>if\<close> statement overrides the second.
\<close>

theorem actionType_block_unless_redirect:
  assumes "includes_str (toLowerCase p) ''escalate'' \<or> includes_str (toLowerCase p) ''needs_attention''"
    and "includes_str (toLowerCase p) ''do not''
         \<or> includes_str (toLowerCase p) (''don'' @ [CHR 0x27] @ ''t'')
         \<or> includes_str (toLowerCase p) ''block''"
  shows "\<exists>r. parsePrompt newId now p = Inr (Some r)
     \<and> type_action (action r) =
         (if includes_str (toLowerCase p) ''redirect'' \<or> includes_str (toLowerCase p) ''route to''
          then Redirect else Block)"
proof -
  from parsePrompt_total [of p newId now] obtain r where
    h: "parsePrompt newId now p = Inr (Some r)"
       "type_action (action r) = fst (actionOf (toLowerCase p))" by blast
  have "fst (actionOf (toLowerCase p)) =
         (if includes_str (toLowerCase p) ''redirect'' \<or> includes_str (toLowerCase p) ''route to''
          then Redirect else Block)"
    using assms(2) by (simp add: actionOf_def)
  with h show ?thesis by auto
qed

theorem actionType_block_unless_redirect_witness:
  "includes_str (toLowerCase ''Do not escalate refund requests'') ''escalate''
   \<and> includes_str (toLowerCase ''Do not escalate refund requests'') ''do not''
   \<and> (\<exists>r. parsePrompt ''rule_1'' ''2026-01-01T00:00:00.000Z'' ''Do not escalate refund requests''
             = Inr (Some r) \<and> type_action (action r) = Block)"
proof -
  have 1: "includes_str (toLowerCase ''Do not escalate refund requests'') ''escalate''" by code_simp
  have 2: "includes_str (toLowerCase ''Do not escalate refund requests'') ''do not''" by code_simp
  have 3: "\<not> includes_str (toLowerCase ''Do not escalate refund requests'') ''redirect''" by code_simp
  have 4: "\<not> includes_str (toLowerCase ''Do not escalate refund requests'') ''route to''" by code_simp
  from actionType_block_unless_redirect [of "''Do not escalate refund requests''" "''rule_1''"
      "''2026-01-01T00:00:00.000Z''"] 1 2 3 4
  show ?thesis by simp
qed

text \<open>
  C3, as the claim states it, fails: "Do not escalate billing disputes, redirect them to
  billing" has "escalate" and "do not" and is classified REDIRECT, not BLOCK.
\<close>

theorem actionType_redirect_over_block:
  "(includes_str (toLowerCase ''Do not escalate billing disputes, redirect them to billing'') ''escalate''
    \<and> includes_str (toLowerCase ''Do not escalate billing disputes, redirect them to billing'') ''do not'')
   \<and> (\<exists>r. parsePrompt ''rule_1'' ''2026-01-01T00:00:00.000Z''
              ''Do not escalate billing disputes, redirect them to billing'' = Inr (Some r)
          \<and> type_action (action r) = Redirect \<and> type_action (action r) \<noteq> Block)"
proof -
  let ?p = "''Do not escalate billing disputes, redirect them to billing''"
  have 1: "includes_str (toLowerCase ?p) ''escalate''" by code_simp
  have 2: "includes_str (toLowerCase ?p) ''do not''" by code_simp
  have 3: "includes_str (toLowerCase ?p) ''redirect''" by code_simp
  from parsePrompt_total [of ?p "''rule_1''" "''2026-01-01T00:00:00.000Z''"] obtain r where
    h: "parsePrompt ''rule_1'' ''2026-01-01T00:00:00.000Z'' ?p = Inr (Some r)"
       "type_action (action r) = fst (actionOf (toLowerCase ?p))" by blast
  have "fst (actionOf (toLowerCase ?p)) = Redirect"
    using 3 by (simp add: actionOf_def)
  with h have "parsePrompt ''rule_1'' ''2026-01-01T00:00:00.000Z'' ?p = Inr (Some r)
          \<and> type_action (action r) = Redirect \<and> type_action (action r) \<noteq> Block" by simp
  with 1 2 show ?thesis by blast
qed

text \<open>
  C4. In a store where no rule matches the message "I want a refund", adding the prompt
  "Block all refund requests over $500" stores a rule of action type BLOCK that has the
  keyword "refund"; "refund" is in the lower-case message, \<open>checkMessage\<close> then returns
  the new rule for the message, and \<open>applyDynamicRules\<close> returns \<open>blocked = true\<close>.
\<close>

theorem block_refund_scenario:
  assumes "checkMessage rules ''I want a refund'' = None"
  shows "\<exists>r. addRule rules newId now ''Block all refund requests over $500'' = Inr (Some r, rules @ [r])
     \<and> type_action (action r) = Block
     \<and> ''refund'' \<in> set (keywords_trigger (trigger r))
     \<and> includes_str (toLowerCase ''I want a refund'') ''refund''
     \<and> checkMessage (rules @ [r]) ''I want a refund'' = Some r
     \<and> blocked (applyDynamicRules (rules @ [r]) ''I want a refund'')"
proof -
  let ?p = "''Block all refund requests over $500''"
  have 1: "triggerLoop triggerPatterns ?p = Inr []" by code_simp
  have 2: "fallbackWords (toLowerCase ?p) = [''block'', ''refund'', ''requests'']" by code_simp
  have 3: "actionOf (toLowerCase ?p) = (Block, ''Action blocked by dynamic rule'')" by code_simp
  have 4: "includes_str (toLowerCase ''I want a refund'') ''refund''" by code_simp
  from addRule_total [of ?p newId now rules] obtain ws r where
    h: "triggerLoop triggerPatterns ?p = Inr ws"
       "addRule rules newId now ?p = Inr (Some r, rules @ [r])"
       "active r"
       "keywords_trigger (trigger r) = (if ws = [] then fallbackWords (toLowerCase ?p) else ws)"
       "type_action (action r) = fst (actionOf (toLowerCase ?p))"
    by blast
  from h(1) 1 have "ws = []" by simp
  with h(4) 2 have k: "keywords_trigger (trigger r) = [''block'', ''refund'', ''requests'']" by simp
  from h(5) 3 have b: "type_action (action r) = Block" by simp
  have m: "checkMessage [r] ''I want a refund'' = Some r"
    using 4 h(3) by (simp add: checkMessage_find k)
  have c: "checkMessage (rules @ [r]) ''I want a refund'' = Some r"
    using assms m by (simp add: checkMessage_append_new)
  have "blocked (applyDynamicRules (rules @ [r]) ''I want a refund'')"
    by (simp add: applyDynamicRules_def c b)
  with h(2) b k 4 c show ?thesis by auto
qed

theorem block_refund_scenario_witness:
  "\<exists>r. addRule [] ''rule_1'' ''2026-01-01T00:00:00.000Z'' ''Block all refund requests over $500''
          = Inr (Some r, [r])
     \<and> type_action (action r) = Block
     \<and> checkMessage [r] ''I want a refund'' = Some r
     \<and> blocked (applyDynamicRules [r] ''I want a refund'')"
proof -
  have "checkMessage [] ''I want a refund'' = None" by (simp add: checkMessage_def)
  from block_refund_scenario [OF this, of "''rule_1''" "''2026-01-01T00:00:00.000Z''"]
  show ?thesis by simp blast
qed

text \<open>
  C5. When none of the three trigger patterns matches the prompt, the keywords of the
  parsed rule are the fallback words of the lower-case prompt: at most three, each longer
  than 3 characters.
\<close>

theorem fallback_keywords:
  assumes "\<forall>pattern \<in> set triggerPatterns. match_re True pattern p = None"
  shows "\<exists>r. parsePrompt newId now p = Inr (Some r)
     \<and> keywords_trigger (trigger r) = fallbackWords (toLowerCase p)
     \<and> length (keywords_trigger (trigger r)) \<le> 3
     \<and> (\<forall>kw \<in> set (keywords_trigger (trigger r)). length kw > 3)"
proof -
  have "triggerLoop ps p = Inr []" if "\<forall>pattern \<in> set ps. match_re True pattern p = None" for ps
    using that by (induction ps) auto
  from this [OF assms] have 1: "triggerLoop triggerPatterns p = Inr []" .
  have 2: "length (fallbackWords s) \<le> 3" for s by (simp add: fallbackWords_def)
  have 3: "\<forall>kw \<in> set (fallbackWords s). length kw > 3" for s
    by (auto simp: fallbackWords_def dest: in_set_takeD)
  from parsePrompt_total [of p newId now] obtain ws r where
    h: "triggerLoop triggerPatterns p = Inr ws" "parsePrompt newId now p = Inr (Some r)"
      "keywords_trigger (trigger r) = (if ws = [] then fallbackWords (toLowerCase p) else ws)"
    by blast
  from h(1) 1 have "ws = []" by simp
  with h(3) have k: "keywords_trigger (trigger r) = fallbackWords (toLowerCase p)" by simp
  with h(2) 2 3 show ?thesis by auto
qed

theorem fallback_keywords_witness:
  "map (\<lambda>pattern. match_re True pattern ''Never discuss wholesale pricing by email'')
       triggerPatterns = [None, None, None]
   \<and> (\<exists>r. parsePrompt ''rule_1'' ''2026-01-01T00:00:00.000Z''
             ''Never discuss wholesale pricing by email'' = Inr (Some r)
         \<and> keywords_trigger (trigger r) = [''discuss'', ''wholesle'', ''pricing''])"
proof -
  let ?p = "''Never discuss wholesale pricing by email''"
  have m: "map (\<lambda>pattern. match_re True pattern ?p) triggerPatterns = [None, None, None]"
    by code_simp
  have n: "\<forall>pattern \<in> set triggerPatterns. match_re True pattern ?p = None"
  proof
    fix pattern assume "pattern \<in> set triggerPatterns"
    then have "match_re True pattern ?p \<in> set (map (\<lambda>pattern. match_re True pattern ?p) triggerPatterns)"
      by simp
    then show "match_re True pattern ?p = None" unfolding m by simp
  qed
  have f: "fallbackWords (toLowerCase ?p) = [''discuss'', ''wholesle'', ''pricing'']" by code_simp
  from fallback_keywords [OF n, of "''rule_1''" "''2026-01-01T00:00:00.000Z''"] m f
  show ?thesis by auto
qed

section \<open>Facts about the matcher\<close>

lemma litMatch_iff:
  "litMatch ic w s = Some s' \<longleftrightarrow>
     (\<exists>u. s = u @ s' \<and> length u = length w \<and> map (canon ic) u = map (canon ic) w)"
proof (induction ic w s rule: litMatch.induct)
  case (1 ic s)
  then show ?case by auto
next
  case (2 ic p ps)
  then show ?case by auto
next
  case (3 ic p ps x xs)
  show ?case
  proof
    assume "litMatch ic (p # ps) (x # xs) = Some s'"
    then have e: "canon ic x = canon ic p" and "litMatch ic ps xs = Some s'"
      by (auto split: if_splits)
    with 3 obtain u where "xs = u @ s'" "length u = length ps"
      "map (canon ic) u = map (canon ic) ps" by auto
    with e have "x # xs = (x # u) @ s' \<and> length (x # u) = length (p # ps)
      \<and> map (canon ic) (x # u) = map (canon ic) (p # ps)" by simp
    then show "\<exists>u. x # xs = u @ s' \<and> length u = length (p # ps)
      \<and> map (canon ic) u = map (canon ic) (p # ps)" by blast
  next
    assume "\<exists>u. x # xs = u @ s' \<and> length u = length (p # ps)
      \<and> map (canon ic) u = map (canon ic) (p # ps)"
    then obtain u where u: "x # xs = u @ s'" "length u = length (p # ps)"
      "map (canon ic) u = map (canon ic) (p # ps)" by blast
    then obtain y ys where uy: "u = y # ys" by (cases u) auto
    with u have e: "canon ic x = canon ic p" and "xs = ys @ s'" "length ys = length ps"
      "map (canon ic) ys = map (canon ic) ps" by auto
    with 3 have "litMatch ic ps xs = Some s'" by auto
    with e show "litMatch ic (p # ps) (x # xs) = Some s'" by simp
  qed
qed

lemma runs_iff:
  "s' \<in> set (runs P s) \<longleftrightarrow> (\<exists>u. u \<noteq> [] \<and> list_all P u \<and> s = u @ s')"
proof (induction s arbitrary: s')
  case Nil
  then show ?case by simp
next
  case (Cons x xs)
  show ?case
  proof
    assume a: "s' \<in> set (runs P (x # xs))"
    then have px: "P x" by (auto split: if_splits)
    with a consider "s' \<in> set (runs P xs)" | "s' = xs" by auto
    then show "\<exists>u. u \<noteq> [] \<and> list_all P u \<and> x # xs = u @ s'"
    proof cases
      case 1
      with Cons obtain u where "u \<noteq> []" "list_all P u" "xs = u @ s'" by blast
      with px have "x # u \<noteq> [] \<and> list_all P (x # u) \<and> x # xs = (x # u) @ s'" by simp
      then show ?thesis by blast
    next
      case 2
      with px have "[x] \<noteq> [] \<and> list_all P [x] \<and> x # xs = [x] @ s'" by simp
      then show ?thesis by blast
    qed
  next
    assume "\<exists>u. u \<noteq> [] \<and> list_all P u \<and> x # xs = u @ s'"
    then obtain u where u: "u \<noteq> []" "list_all P u" "x # xs = u @ s'" by blast
    then obtain y ys where uy: "u = y # ys" by (cases u) auto
    with u have px: "P x" and ys: "list_all P ys" "xs = ys @ s'" by auto
    show "s' \<in> set (runs P (x # xs))"
    proof (cases ys)
      case Nil
      with ys px show ?thesis by simp
    next
      case (Cons z zs)
      with ys have "\<exists>u. u \<noteq> [] \<and> list_all P u \<and> xs = u @ s'" by blast
      with Cons.IH px show ?thesis by simp
    qed
  qed
qed

lemma ms_iff:
  "(s', c') \<in> set (ms ic r (s, c)) \<longleftrightarrow> (\<exists>u. s = u @ s' \<and> matches ic r u c c')"
proof (induction r arbitrary: s c s' c')
  case (Lit w)
  have "(s', c') \<in> set (ms ic (Lit w) (s, c)) \<longleftrightarrow> (litMatch ic w s = Some s' \<and> c' = c)"
    by (cases "litMatch ic w s") auto
  then show ?case unfolding litMatch_iff by auto
next
  case (Cls k)
  then show ?case by (cases s) auto
next
  case (Plus k)
  then show ?case by (auto simp: runs_iff)
next
  case (Opt r)
  then show ?case by auto
next
  case (Seq a b)
  show ?case
  proof
    assume "(s', c') \<in> set (ms ic (Seq a b) (s, c))"
    then obtain s1 c1 where 1: "(s1, c1) \<in> set (ms ic a (s, c))"
      and 2: "(s', c') \<in> set (ms ic b (s1, c1))" by auto
    from 1 Seq.IH(1) obtain v where v: "s = v @ s1" "matches ic a v c c1" by blast
    from 2 Seq.IH(2) obtain w where w: "s1 = w @ s'" "matches ic b w c1 c'" by blast
    from v w have "s = (v @ w) @ s' \<and> matches ic (Seq a b) (v @ w) c c'" by auto
    then show "\<exists>u. s = u @ s' \<and> matches ic (Seq a b) u c c'" by blast
  next
    assume "\<exists>u. s = u @ s' \<and> matches ic (Seq a b) u c c'"
    then obtain v w c1 where h: "s = (v @ w) @ s'" "matches ic a v c c1" "matches ic b w c1 c'"
      by auto
    from h(1,2) Seq.IH(1) [of "w @ s'" c1 s c] have 1: "(w @ s', c1) \<in> set (ms ic a (s, c))"
      by auto
    from h(3) Seq.IH(2) [of s' c' "w @ s'" c1] have 2: "(s', c') \<in> set (ms ic b (w @ s', c1))"
      by auto
    from 1 2 show "(s', c') \<in> set (ms ic (Seq a b) (s, c))" by auto
  qed
next
  case (Alt a b)
  then show ?case by auto
next
  case (Group r)
  show ?case
  proof
    assume "(s', c') \<in> set (ms ic (Group r) (s, c))"
    then obtain c1 where 1: "(s', c1) \<in> set (ms ic r (s, c))"
      and c': "c' = Some (take (length s - length s') s)" by auto
    from 1 Group.IH obtain u where u: "s = u @ s'" "matches ic r u c c1" by blast
    with c' have "s = u @ s' \<and> matches ic (Group r) u c c'" by auto
    then show "\<exists>u. s = u @ s' \<and> matches ic (Group r) u c c'" by blast
  next
    assume "\<exists>u. s = u @ s' \<and> matches ic (Group r) u c c'"
    then obtain u c1 where u: "s = u @ s'" "matches ic r u c c1" "c' = Some u" by auto
    with Group.IH [of s' c1 s c] have "(s', c1) \<in> set (ms ic r (s, c))" by blast
    with u show "(s', c') \<in> set (ms ic (Group r) (s, c))" by force
  qed
qed

lemma exec_None_iff:
  "exec ic r s = None \<longleftrightarrow> \<not> (\<exists>u s' c'. s = u @ s' \<and> matches ic r u None c')"
proof -
  have "exec ic r s = None \<longleftrightarrow> set (ms ic r (s, None)) = {}"
    by (auto simp: exec_def split: list.splits)
  also have "\<dots> \<longleftrightarrow> \<not> (\<exists>s' c'. (s', c') \<in> set (ms ic r (s, None)))"
    by (cases "ms ic r (s, None)") auto
  finally show ?thesis by (simp add: ms_iff) blast
qed

lemma hd_concat_map:
  "concat (map f xs) = y # ys \<Longrightarrow>
     \<exists>us x vs. xs = us @ x # vs \<and> (\<forall>u \<in> set us. f u = []) \<and> f x \<noteq> [] \<and> y = hd (f x)"
proof (induction xs)
  case Nil
  then show ?case by simp
next
  case (Cons a xs)
  show ?case
  proof (cases "f a")
    case Nil
    with Cons.prems have "concat (map f xs) = y # ys" by simp
    from Cons.IH [OF this] obtain us x vs where
      h: "xs = us @ x # vs" "\<forall>u \<in> set us. f u = []" "f x \<noteq> []" "y = hd (f x)" by blast
    with Nil have "a # xs = (a # us) @ x # vs \<and> (\<forall>u \<in> set (a # us). f u = [])
      \<and> f x \<noteq> [] \<and> y = hd (f x)" by simp
    then show ?thesis by blast
  next
    case (Cons b bs)
    with Cons.prems have "a # xs = [] @ a # xs \<and> (\<forall>u \<in> set []. f u = [])
      \<and> f a \<noteq> [] \<and> y = hd (f a)" by simp
    then show ?thesis by blast
  qed
qed

lemma match_re_None_iff:
  "match_re ic r s = None \<longleftrightarrow> (\<forall>pre t. s = pre @ t \<longrightarrow> exec ic r t = None)"
proof (induction s)
  case Nil
  then show ?case by (cases "exec ic r []") auto
next
  case (Cons x xs)
  show ?case
  proof (cases "exec ic r (x # xs)")
    case None
    have "(\<forall>pre t. x # xs = pre @ t \<longrightarrow> exec ic r t = None)
      \<longleftrightarrow> (\<forall>pre t. xs = pre @ t \<longrightarrow> exec ic r t = None)"
    proof
      assume a: "\<forall>pre t. x # xs = pre @ t \<longrightarrow> exec ic r t = None"
      show "\<forall>pre t. xs = pre @ t \<longrightarrow> exec ic r t = None"
      proof (intro allI impI)
        fix pre t assume "xs = pre @ t"
        then have "x # xs = (x # pre) @ t" by simp
        with a show "exec ic r t = None" by blast
      qed
    next
      assume a: "\<forall>pre t. xs = pre @ t \<longrightarrow> exec ic r t = None"
      show "\<forall>pre t. x # xs = pre @ t \<longrightarrow> exec ic r t = None"
      proof (intro allI impI)
        fix pre t assume e: "x # xs = pre @ t"
        show "exec ic r t = None"
        proof (cases pre)
          case Nil
          with e None show ?thesis by simp
        next
          case (Cons p ps)
          with e have "xs = ps @ t" by simp
          with a show ?thesis by blast
        qed
      qed
    qed
    with None Cons show ?thesis by simp
  next
    case (Some m)
    then have "\<not> (\<forall>pre t. x # xs = pre @ t \<longrightarrow> exec ic r t = None)"
      by (metis append_Nil option.distinct(1))
    with Some show ?thesis by simp
  qed
qed

lemma match_re_Some:
  "match_re ic r s = Some g \<Longrightarrow>
     \<exists>pre t rest. s = pre @ t \<and> exec ic r t = Some (rest, g)
        \<and> (\<forall>pre' t'. s = pre' @ t' \<and> length pre' < length pre \<longrightarrow> exec ic r t' = None)"
proof (induction s)
  case Nil
  then obtain rest where e: "exec ic r [] = Some (rest, g)" by (cases "exec ic r []") auto
  show ?case
  proof (intro exI conjI)
    show "([] :: string) = [] @ []" by simp
    show "exec ic r [] = Some (rest, g)" by (rule e)
    show "\<forall>pre' t'. [] = pre' @ t' \<and> length pre' < length ([] :: string) \<longrightarrow> exec ic r t' = None"
      by simp
  qed
next
  case (Cons x xs)
  show ?case
  proof (cases "exec ic r (x # xs)")
    case (Some m)
    with Cons.prems have "m = (fst m, g)" by (cases m) auto
    with Some have e: "exec ic r (x # xs) = Some (fst m, g)" by simp
    show ?thesis
    proof (intro exI conjI)
      show "x # xs = [] @ (x # xs)" by simp
      show "exec ic r (x # xs) = Some (fst m, g)" by (rule e)
      show "\<forall>pre' t'. x # xs = pre' @ t' \<and> length pre' < length ([] :: string) \<longrightarrow> exec ic r t' = None"
        by simp
    qed
  next
    case None
    with Cons.prems have "match_re ic r xs = Some g" by simp
    from Cons.IH [OF this] obtain pre t rest where
      h: "xs = pre @ t" "exec ic r t = Some (rest, g)"
         "\<forall>pre' t'. xs = pre' @ t' \<and> length pre' < length pre \<longrightarrow> exec ic r t' = None" by blast
    have l: "\<forall>pre' t'. x # xs = pre' @ t' \<and> length pre' < length (x # pre) \<longrightarrow> exec ic r t' = None"
    proof (intro allI impI)
      fix pre' t' assume a: "x # xs = pre' @ t' \<and> length pre' < length (x # pre)"
      show "exec ic r t' = None"
      proof (cases pre')
        case Nil
        with a None show ?thesis by simp
      next
        case (Cons p ps)
        with a have "xs = ps @ t' \<and> length ps < length pre" by simp
        with h(3) show ?thesis by blast
      qed
    qed
    show ?thesis
    proof (intro exI conjI)
      show "x # xs = (x # pre) @ t" using h(1) by simp
      show "exec ic r t = Some (rest, g)" by (rule h(2))
      show "\<forall>pre' t'. x # xs = pre' @ t' \<and> length pre' < length (x # pre) \<longrightarrow> exec ic r t' = None"
        by (rule l)
    qed
  qed
qed

section \<open>Facts about the letter tables\<close>

lemma translate_nth:
  "distinct as \<Longrightarrow> length as = length bs \<Longrightarrow> i < length as \<Longrightarrow> translate as bs (as ! i) = bs ! i"
proof (induction as bs "as ! i" arbitrary: i rule: translate.induct)
  case (1 a as b bs)
  then show ?case by (cases i) auto
qed auto

lemma tables:
  "distinct upperLetters" "distinct lowerLetters" "length upperLetters = length lowerLetters"
  "set upperLetters \<inter> set lowerLetters = {}"
  by (simp_all add: upperLetters_def lowerLetters_def)

lemma letters_take:
  "letters_AZ = take 26 upperLetters" "letters_az = take 26 lowerLetters"
  by (simp_all add: upperLetters_def lowerLetters_def letters_AZ_def letters_az_def)

lemma nth_in_take:
  "distinct xs \<Longrightarrow> i < length xs \<Longrightarrow> (xs ! i \<in> set (take n xs) \<longleftrightarrow> i < n)"
proof
  assume d: "distinct xs" and i: "i < length xs" and m: "xs ! i \<in> set (take n xs)"
  then obtain j where j: "j < length (take n xs)" "take n xs ! j = xs ! i"
    by (auto simp: in_set_conv_nth)
  then have "j < n" "j < length xs" "xs ! j = xs ! i" by simp_all
  with d i have "j = i" by (simp add: nth_eq_iff_index_eq)
  with \<open>j < n\<close> show "i < n" by simp
next
  assume "distinct xs" "i < length xs" "i < n"
  then have "i < length (take n xs)" "take n xs ! i = xs ! i" by simp_all
  then show "xs ! i \<in> set (take n xs)" by (metis nth_mem)
qed

lemma translate_back:
  assumes "distinct as" "distinct bs" "length as = length bs" "set as \<inter> set bs = {}"
  shows "translate as bs (translate bs as x) = translate as bs x"
proof (cases "x \<in> set bs")
  case True
  then obtain i where i: "i < length bs" "x = bs ! i" by (auto simp: in_set_conv_nth)
  with assms have 1: "translate bs as x = as ! i" by (simp add: translate_nth)
  from i assms have 2: "translate as bs (as ! i) = bs ! i" by (simp add: translate_nth)
  from True assms(4) have "x \<notin> set as" by auto
  then have "translate as bs x = x" by (rule translate_fixed)
  with 1 2 i show ?thesis by simp
next
  case False
  then show ?thesis by (simp add: translate_fixed)
qed

lemma translate_in_take:
  assumes "distinct as" "distinct bs" "length as = length bs" "set as \<inter> set bs = {}"
  shows "translate bs as x \<in> set (take n as) \<longleftrightarrow> x \<in> set (take n as) \<or> x \<in> set (take n bs)"
proof (cases "x \<in> set bs")
  case True
  then obtain i where i: "i < length bs" "x = bs ! i" by (auto simp: in_set_conv_nth)
  with assms have 1: "translate bs as x = as ! i" by (simp add: translate_nth)
  from i assms have 2: "as ! i \<in> set (take n as) \<longleftrightarrow> i < n" by (simp add: nth_in_take)
  from i assms have 3: "bs ! i \<in> set (take n bs) \<longleftrightarrow> i < n" by (simp add: nth_in_take)
  from True assms(4) have "x \<notin> set as" by auto
  then have "x \<notin> set (take n as)" by (auto dest: in_set_takeD)
  with 1 2 3 i show ?thesis by simp
next
  case False
  then have "translate bs as x = x" by (rule translate_fixed)
  moreover from False have "x \<notin> set (take n bs)" by (auto dest: in_set_takeD)
  ultimately show ?thesis by simp
qed

lemma translate_range:
  assumes "length as = length bs"
  shows "translate as bs x = x \<or> translate as bs x \<in> set bs"
  using translate_cases [of as bs x] by (auto simp: in_set_conv_nth)

lemma translate_eq_other:
  assumes "length as = length bs" "p \<notin> set as" "p \<notin> set bs"
  shows "translate as bs x = p \<longleftrightarrow> x = p"
proof
  assume e: "translate as bs x = p"
  with translate_range [OF assms(1), of x] assms(3) show "x = p" by auto
next
  assume "x = p"
  with assms(2) show "translate as bs x = p" by (simp add: translate_fixed)
qed

lemma lowerChar_canonicalize: "lowerChar (canonicalize x) = lowerChar x"
  unfolding lowerChar_def canonicalize_def
  using tables by (intro translate_back) auto

lemma canonicalize_lowerChar: "canonicalize (lowerChar x) = canonicalize x"
  unfolding lowerChar_def canonicalize_def
  using tables by (intro translate_back) auto

lemma canonicalize_eq_iff: "canonicalize x = canonicalize y \<longleftrightarrow> lowerChar x = lowerChar y"
  by (metis lowerChar_canonicalize canonicalize_lowerChar)

lemma map_canonicalize_eq_iff:
  "map canonicalize u = map canonicalize v \<longleftrightarrow> toLowerCase u = toLowerCase v"
proof (induction u arbitrary: v)
  case Nil
  then show ?case by (auto simp: toLowerCase_def)
next
  case (Cons x xs)
  then show ?case
    by (cases v) (auto simp: toLowerCase_def canonicalize_eq_iff)
qed

lemma canonicalize_in_AZ:
  "canonicalize x \<in> set letters_AZ \<longleftrightarrow> x \<in> set letters_AZ \<or> x \<in> set letters_az"
  unfolding canonicalize_def letters_take
  using tables by (intro translate_in_take) auto

lemma lowerChar_notin_AZ: "lowerChar x \<in> set letters_AZ \<longleftrightarrow> False"
proof -
  have sub: "set letters_AZ \<subseteq> set upperLetters"
    unfolding letters_take by (rule set_take_subset)
  have "lowerChar x \<notin> set upperLetters"
  proof (cases "x \<in> set upperLetters")
    case True
    then obtain i where i: "i < length upperLetters" "x = upperLetters ! i"
      by (auto simp: in_set_conv_nth)
    with tables have "lowerChar x = lowerLetters ! i"
      by (simp add: lowerChar_def translate_nth)
    moreover from i tables(3) have "lowerLetters ! i \<in> set lowerLetters" by simp
    ultimately show ?thesis using tables(4) by auto
  next
    case False
    then show ?thesis by (simp add: lowerChar_def translate_fixed)
  qed
  with sub show ?thesis by auto
qed

lemma underscore_no_letter:
  "CHR ''_'' \<notin> set lowerLetters" "CHR ''_'' \<notin> set upperLetters"
  "CHR 0x27 \<notin> set lowerLetters" "CHR 0x27 \<notin> set upperLetters"
  "CHR 0x22 \<notin> set lowerLetters" "CHR 0x22 \<notin> set upperLetters"
  by (simp_all add: upperLetters_def lowerLetters_def)

lemma canonicalize_eq_underscore:
  "canonicalize x = canonicalize CHR ''_'' \<longleftrightarrow> x = CHR ''_''"
  "canonicalize x = canonicalize (CHR 0x27) \<longleftrightarrow> x = CHR 0x27"
  "canonicalize x = canonicalize (CHR 0x22) \<longleftrightarrow> x = CHR 0x22"
  using tables(3) underscore_no_letter
  by (simp_all add: canonicalize_def translate_eq_other translate_fixed)

lemma cmatch_tagChar:
  "cmatch True (Union (OneOf letters_AZ) (Chr CHR ''_'')) x = isTagChar x"
  by (auto simp: isTagChar_def canon_def canonicalize_in_AZ lowerChar_notin_AZ
        canonicalize_eq_underscore)

lemma cmatch_quote: "cmatch True quote x = isQuote x"
  by (auto simp: quote_def isQuote_def canon_def canonicalize_eq_underscore)

lemma space_other:
  assumes "isSpace c"
  shows "\<not> isTagChar c" "\<not> isQuote c" "lowerChar c \<noteq> CHR ''a''"
proof -
  from assms have c: "c \<in> {CHR 0x09, CHR 0x0A, CHR 0x0B, CHR 0x0C, CHR 0x0D, CHR 0x20, CHR 0xA0}"
    by (simp add: isSpace_def)
  then show "\<not> isTagChar c" by (auto simp: isTagChar_def letters_AZ_def letters_az_def)
  from c show "\<not> isQuote c" by (auto simp: isQuote_def)
  from c have "c \<notin> set upperLetters" by (auto simp: upperLetters_def)
  then have "lowerChar c = c" by (simp add: lowerChar_def translate_fixed)
  with c show "lowerChar c \<noteq> CHR ''a''" by auto
qed

section \<open>The tag pattern\<close>

lemma tagPattern_eq:
  "tagPattern =
     Seq (Lit ''mark'') (Seq (Plus Space) (Seq (Opt (Seq (Lit ''as'') (Plus Space)))
       (Seq (Opt (Cls quote)) (Seq (Group (Plus tagChars)) (Opt (Cls quote))))))"
  by (simp add: tagPattern_def spaces_def)

lemma canon_True: "canon True = canonicalize"
  by (rule ext) (simp add: canon_def)

lemma matches_Lit: "matches True (Lit w) u c c' \<longleftrightarrow> c' = c \<and> ciEqual u w"
proof -
  have "map canonicalize u = map canonicalize w \<Longrightarrow> length u = length w"
    by (rule map_eq_imp_length_eq)
  then show ?thesis
    by (auto simp: canon_True ciEqual_def map_canonicalize_eq_iff [symmetric])
qed

lemma cmatch_tagChars: "cmatch True tagChars = isTagChar"
  unfolding tagChars_def by (rule ext) (rule cmatch_tagChar)

lemma cmatch_Space: "cmatch ic Space = isSpace"
  by (rule ext) simp

lemma cmatch_quote_fun: "cmatch True quote = isQuote"
  by (rule ext) (rule cmatch_quote)

lemma matches_spaces: "matches True (Plus Space) u c c' \<longleftrightarrow> c' = c \<and> spaceRun u"
  by (auto simp: spaceRun_def cmatch_Space)

lemma matches_tagGroup: "matches True (Group (Plus tagChars)) u c c' \<longleftrightarrow> c' = Some u \<and> tagRun u"
  by (auto simp: tagRun_def cmatch_tagChars)

lemma matches_optQuote: "matches True (Opt (Cls quote)) u c c' \<longleftrightarrow> c' = c \<and> optQuote u"
  by (auto simp: optQuote_def cmatch_quote)

lemma matches_optAs:
  "matches True (Opt (Seq (Lit ''as'') (Plus Space))) u c c' \<longleftrightarrow> c' = c \<and> optAs u"
  by (auto simp: optAs_def matches_Lit matches_spaces simp del: matches.simps(1,3))

lemma runs_hd:
  "runs P s \<noteq> [] \<Longrightarrow> hd (runs P s) = dropWhile P s \<and> takeWhile P s \<noteq> []"
proof (induction s)
  case Nil
  then show ?case by simp
next
  case (Cons x xs)
  then have px: "P x" by (auto split: if_splits)
  show ?case
  proof (cases "runs P xs")
    case Nil
    then have "xs = [] \<or> \<not> P (hd xs)" by (cases xs) (auto split: if_splits)
    then have "dropWhile P xs = xs" by (cases xs) auto
    with Nil px show ?thesis by simp
  next
    case (Cons r rs)
    with Cons.IH have "hd (runs P xs) = dropWhile P xs" by simp
    with Cons px show ?thesis by simp
  qed
qed

lemma ms_Seq_first:
  assumes "ms ic (Seq a b) st \<noteq> []"
  shows "\<exists>us x vs. ms ic a st = us @ x # vs \<and> (\<forall>u \<in> set us. ms ic b u = [])
           \<and> ms ic b x \<noteq> [] \<and> hd (ms ic (Seq a b) st) = hd (ms ic b x)"
proof -
  from assms obtain y ys where e: "concat (map (ms ic b) (ms ic a st)) = y # ys"
    by (cases "ms ic (Seq a b) st") auto
  from hd_concat_map [OF e] obtain us x vs where
    h: "ms ic a st = us @ x # vs" "\<forall>u \<in> set us. ms ic b u = []" "ms ic b x \<noteq> []"
       "y = hd (ms ic b x)" by blast
  from e h(4) have "hd (ms ic (Seq a b) st) = hd (ms ic b x)" by simp
  with h show ?thesis by blast
qed

lemma ms_optCls_first: "snd (hd (ms ic (Opt (Cls k)) (s, c))) = c"
  by (cases s) auto

lemma ms_tail_first:
  assumes "ms True (Seq (Group (Plus tagChars)) (Opt (Cls quote))) (s, c) \<noteq> []"
  shows "snd (hd (ms True (Seq (Group (Plus tagChars)) (Opt (Cls quote))) (s, c)))
           = Some (takeWhile isTagChar s) \<and> takeWhile isTagChar s \<noteq> []"
proof -
  let ?G = "Group (Plus tagChars)" and ?Q = "Opt (Cls quote)"
  from ms_Seq_first [OF assms] obtain us x vs where
    h: "ms True ?G (s, c) = us @ x # vs" "\<forall>u \<in> set us. ms True ?Q u = []"
       "hd (ms True (Seq ?G ?Q) (s, c)) = hd (ms True ?Q x)" by blast
  have "ms True ?Q u \<noteq> []" for u by simp
  with h(2) have "us = []" by (cases us) auto
  with h(1) have x: "x = hd (ms True ?G (s, c))" and ne: "ms True ?G (s, c) \<noteq> []" by simp_all
  from ne have r: "runs isTagChar s \<noteq> []" by (simp add: cmatch_tagChars)
  from runs_hd [OF r] have hd: "hd (runs isTagChar s) = dropWhile isTagChar s"
    and tw: "takeWhile isTagChar s \<noteq> []" by simp_all
  have len: "length s - length (dropWhile isTagChar s) = length (takeWhile isTagChar s)"
    by (metis add_diff_cancel_right' length_append takeWhile_dropWhile_id)
  have "take (length (takeWhile isTagChar s)) s = takeWhile isTagChar s"
    by (metis append_eq_conv_conj takeWhile_dropWhile_id)
  with x r hd len have x': "x = (dropWhile isTagChar s, Some (takeWhile isTagChar s))"
    by (simp add: cmatch_tagChars hd_map)
  have "snd (hd (ms True ?Q x)) = snd x"
    unfolding x' by (simp only: ms_optCls_first snd_conv)
  with h(3) x' tw show ?thesis by simp
qed

lemma append_snoc_split:
  "xs @ [y] = us @ x # vs \<Longrightarrow> (vs = [] \<and> us = xs \<and> x = y) \<or> x \<in> set xs"
proof (cases vs rule: rev_cases)
  case Nil
  assume "xs @ [y] = us @ x # vs"
  with Nil show ?thesis by simp
next
  case (snoc zs z)
  assume "xs @ [y] = us @ x # vs"
  with snoc have "xs @ [y] = (us @ x # zs) @ [z]" by simp
  then have "xs = us @ x # zs" by (simp only: append1_eq_conv)
  then show ?thesis by simp
qed

lemma matches_SeqI:
  "matches ic a v c c1 \<Longrightarrow> matches ic b w c1 c' \<Longrightarrow> matches ic (Seq a b) (v @ w) c c'"
  by auto

lemma matches_As:
  "matches True (Seq (Lit ''as'') (Plus Space)) u c c' \<longleftrightarrow>
     c' = c \<and> u \<noteq> [] \<and> optAs u"
proof -
  have "matches True (Seq (Lit ''as'') (Plus Space)) u c c' \<longleftrightarrow>
     c' = c \<and> (\<exists>a1 a2. u = a1 @ a2 \<and> ciEqual a1 ''as'' \<and> spaceRun a2)"
    by (auto simp: matches_Lit matches_spaces simp del: matches.simps(1,3))
  moreover have "(\<exists>a1 a2. u = a1 @ a2 \<and> ciEqual a1 ''as'' \<and> spaceRun a2) \<longleftrightarrow> u \<noteq> [] \<and> optAs u"
    by (auto simp: optAs_def spaceRun_def)
  ultimately show ?thesis by simp
qed

lemma matches_tail:
  assumes "optQuote q" "tagRun x"
  shows "matches True (Seq (Opt (Cls quote)) (Seq (Group (Plus tagChars)) (Opt (Cls quote))))
           (q @ x) c (Some x)"
proof -
  have 1: "matches True (Group (Plus tagChars)) x c (Some x)"
    unfolding matches_tagGroup using assms(2) by simp
  have 2: "matches True (Opt (Cls quote)) [] (Some x) (Some x)"
    unfolding matches_optQuote by (simp add: optQuote_def)
  from matches_SeqI [OF 1 2]
  have 3: "matches True (Seq (Group (Plus tagChars)) (Opt (Cls quote))) x c (Some x)" by simp
  have 4: "matches True (Opt (Cls quote)) q c c"
    unfolding matches_optQuote using assms(1) by simp
  from matches_SeqI [OF 4 3] show ?thesis .
qed

lemma markPhrase_matches:
  assumes "markPhrase w a x"
  shows "matches True tagPattern w None (Some x)"
proof -
  from assms obtain m sp q where h: "w = m @ sp @ a @ q @ x" "ciEqual m ''mark''" "spaceRun sp"
    "optAs a" "optQuote q" "tagRun x" by (auto simp: markPhrase_def)
  note 1 = matches_tail [OF h(5,6), of None]
  have 2: "matches True (Opt (Seq (Lit ''as'') (Plus Space))) a None None"
    unfolding matches_optAs using h(4) by simp
  note 3 = matches_SeqI [OF 2 1]
  have 4: "matches True (Plus Space) sp None None"
    unfolding matches_spaces using h(3) by simp
  note 5 = matches_SeqI [OF 4 3]
  have 6: "matches True (Lit ''mark'') m None None"
    unfolding matches_Lit using h(2) by simp
  note 7 = matches_SeqI [OF 6 5]
  from 7 show ?thesis unfolding tagPattern_eq h(1) by simp
qed

lemma markPhrase_exec:
  assumes "markPhrase w a x"
  shows "exec True tagPattern (w @ post) \<noteq> None"
  using markPhrase_matches [OF assms] unfolding exec_None_iff by blast

lemma exec_tag_first:
  assumes "exec True tagPattern t = Some (rest, g)"
  shows "\<exists>m sp a q x post. t = m @ sp @ a @ q @ x @ post \<and> ciEqual m ''mark'' \<and> spaceRun sp
     \<and> optAs a \<and> optQuote q \<and> tagRun x \<and> (post = [] \<or> \<not> isTagChar (hd post)) \<and> g = Some x
     \<and> (a = [] \<longrightarrow> \<not> (\<exists>a' q' x' post'. a' \<noteq> [] \<and> optAs a' \<and> optQuote q' \<and> tagRun x'
                          \<and> q @ x @ post = a' @ q' @ x' @ post'))"
proof -
  let ?Q = "Opt (Cls quote)"
  let ?R4 = "Seq (Group (Plus tagChars)) ?Q"
  let ?R3 = "Seq ?Q ?R4"
  let ?AS = "Seq (Lit ''as'') (Plus Space)"
  let ?R2 = "Seq (Opt ?AS) ?R3"
  let ?R1 = "Seq (Plus Space) ?R2"
  let ?R0 = "Seq (Lit ''mark'') ?R1"
  from assms have k: "ms True tagPattern (t, None) \<noteq> []"
    "hd (ms True tagPattern (t, None)) = (rest, g)"
    by (cases "ms True tagPattern (t, None)"; simp add: exec_def)+
  note ne0 = k(1) [unfolded tagPattern_eq] and hd0 = k(2) [unfolded tagPattern_eq]
  from ms_Seq_first [OF ne0] obtain us1 x1 vs1 where
    a1: "ms True (Lit ''mark'') (t, None) = us1 @ x1 # vs1" and ne1: "ms True ?R1 x1 \<noteq> []"
    and hd1: "hd (ms True ?R0 (t, None)) = hd (ms True ?R1 x1)" by blast
  obtain s1 c1 where x1: "x1 = (s1, c1)" by (cases x1)
  from a1 have "(s1, c1) \<in> set (ms True (Lit ''mark'') (t, None))" by (simp add: x1)
  then obtain m where m: "t = m @ s1" "matches True (Lit ''mark'') m None c1"
    unfolding ms_iff by blast
  from m(2) have c1: "c1 = None" and cm: "ciEqual m ''mark''"
    unfolding matches_Lit by blast+
  from ms_Seq_first [OF ne1] obtain us2 x2 vs2 where
    a2: "ms True (Plus Space) x1 = us2 @ x2 # vs2" and ne2: "ms True ?R2 x2 \<noteq> []"
    and hd2: "hd (ms True ?R1 x1) = hd (ms True ?R2 x2)" by blast
  obtain s2 c2 where x2: "x2 = (s2, c2)" by (cases x2)
  from a2 have "(s2, c2) \<in> set (ms True (Plus Space) (s1, c1))" by (simp add: x1 x2)
  then obtain sp where sp: "s1 = sp @ s2" "matches True (Plus Space) sp c1 c2"
    unfolding ms_iff by blast
  from sp(2) c1 have c2: "c2 = None" and csp: "spaceRun sp"
    unfolding matches_spaces by blast+
  from ms_Seq_first [OF ne2] obtain us3 x3 vs3 where
    a3: "ms True (Opt ?AS) x2 = us3 @ x3 # vs3" and f3: "\<forall>u \<in> set us3. ms True ?R3 u = []"
    and ne3: "ms True ?R3 x3 \<noteq> []"
    and hd3: "hd (ms True ?R2 x2) = hd (ms True ?R3 x3)" by blast
  obtain s3 c3 where x3: "x3 = (s3, c3)" by (cases x3)
  from a3 have "(s3, c3) \<in> set (ms True (Opt ?AS) (s2, c2))" by (simp add: x2 x3)
  then obtain a where a: "s2 = a @ s3" "matches True (Opt ?AS) a c2 c3"
    unfolding ms_iff by blast
  from a(2) c2 have c3: "c3 = None" and ca: "optAs a"
    unfolding matches_optAs by blast+
  from ms_Seq_first [OF ne3] obtain us4 x4 vs4 where
    a4: "ms True ?Q x3 = us4 @ x4 # vs4" and ne4: "ms True ?R4 x4 \<noteq> []"
    and hd4: "hd (ms True ?R3 x3) = hd (ms True ?R4 x4)" by blast
  obtain s4 c4 where x4: "x4 = (s4, c4)" by (cases x4)
  from a4 have "(s4, c4) \<in> set (ms True ?Q (s3, c3))" by (simp add: x3 x4)
  then obtain q where q: "s3 = q @ s4" "matches True ?Q q c3 c4"
    unfolding ms_iff by blast
  from q(2) have cq: "optQuote q" unfolding matches_optQuote by blast
  define x where "x = takeWhile isTagChar s4"
  define post where "post = dropWhile isTagChar s4"
  from ms_tail_first [OF ne4 [unfolded x4]]
  have g': "snd (hd (ms True ?R4 (s4, c4))) = Some x" and xne: "x \<noteq> []"
    by (simp_all add: x_def)
  from hd0 hd1 hd2 hd3 hd4 have "hd (ms True ?R4 x4) = (rest, g)" by simp
  with g' x4 have g: "g = Some x" by simp
  have s4: "s4 = x @ post" by (simp add: x_def post_def)
  have tr: "tagRun x" using xne by (auto simp: tagRun_def x_def list_all_iff dest: set_takeWhileD)
  have mx: "post = [] \<or> \<not> isTagChar (hd post)"
    unfolding post_def by (metis hd_dropWhile)
  have t: "t = m @ sp @ a @ q @ x @ post" using m(1) sp(1) a(1) q(1) s4 by simp
  have pref: "\<not> (\<exists>a' q' x' post'. a' \<noteq> [] \<and> optAs a' \<and> optQuote q' \<and> tagRun x'
                          \<and> q @ x @ post = a' @ q' @ x' @ post')" if an: "a = []"
  proof
    assume "\<exists>a' q' x' post'. a' \<noteq> [] \<and> optAs a' \<and> optQuote q' \<and> tagRun x'
                          \<and> q @ x @ post = a' @ q' @ x' @ post'"
    then obtain a' q' x' post' where h: "a' \<noteq> []" "optAs a'" "optQuote q'" "tagRun x'"
      "q @ x @ post = a' @ q' @ x' @ post'" by blast
    from an a(1) have s32: "s3 = s2" by simp
    have nin: "x3 \<notin> set (ms True ?AS x2)"
    proof
      assume "x3 \<in> set (ms True ?AS x2)"
      then have "(s2, c3) \<in> set (ms True ?AS (s2, c2))" by (simp add: x2 x3 s32)
      then obtain u where u: "s2 = u @ s2" "matches True ?AS u c2 c3" unfolding ms_iff by blast
      from u(2) have "u \<noteq> []" unfolding matches_As by blast
      with u(1) show False by simp
    qed
    from a3 have "ms True ?AS x2 @ [x2] = us3 @ x3 # vs3" by simp
    from append_snoc_split [OF this] nin have us3: "us3 = ms True ?AS x2" by blast
    from h(5) q(1) s4 s32 have s2: "s2 = a' @ (q' @ x') @ post'" by simp
    have "matches True ?AS a' None None" unfolding matches_As using h(1,2) by simp
    with s2 have "(((q' @ x') @ post'), None) \<in> set (ms True ?AS (s2, None))"
      unfolding ms_iff by auto
    with us3 x2 c2 have "((q' @ x') @ post', None) \<in> set us3" by simp
    with f3 have e: "ms True ?R3 ((q' @ x') @ post', None) = []" by blast
    from matches_tail [OF h(3,4), of None]
    have "(post', Some x') \<in> set (ms True ?R3 ((q' @ x') @ post', None))"
      unfolding ms_iff by blast
    from this [unfolded e] show False by simp
  qed
  show ?thesis
  proof (intro exI conjI)
    show "t = m @ sp @ a @ q @ x @ post" by (rule t)
    show "ciEqual m ''mark''" by (rule cm)
    show "spaceRun sp" by (rule csp)
    show "optAs a" by (rule ca)
    show "optQuote q" by (rule cq)
    show "tagRun x" by (rule tr)
    show "post = [] \<or> \<not> isTagChar (hd post)" by (rule mx)
    show "g = Some x" by (rule g)
    show "a = [] \<longrightarrow> \<not> (\<exists>a' q' x' post'. a' \<noteq> [] \<and> optAs a' \<and> optQuote q' \<and> tagRun x'
                          \<and> q @ x @ post = a' @ q' @ x' @ post')"
      using pref by blast
  qed
qed

lemma takeWhile_run:
  "list_all P u \<Longrightarrow> r \<noteq> [] \<Longrightarrow> \<not> P (hd r) \<Longrightarrow> takeWhile P (u @ r) = u"
  by (induction u) (cases r; simp)+

lemma ciEqual_length: "ciEqual u v \<Longrightarrow> length u = length v"
  unfolding ciEqual_def toLowerCase_def by (rule map_eq_imp_length_eq)

lemma lowerChar_a: "lowerChar CHR ''a'' = CHR ''a''"
  by (simp add: lowerChar_def upperLetters_def translate_fixed)

lemma optAs_hd:
  assumes "optAs a" "a \<noteq> []"
  shows "\<not> isSpace (hd (a @ r))"
proof -
  from assms obtain a1 a2 where a: "a = a1 @ a2" "ciEqual a1 ''as''" by (auto simp: optAs_def)
  from ciEqual_length [OF a(2)] obtain c1 c2 where a1: "a1 = [c1, c2]"
    by (cases a1; cases "tl a1") auto
  from a(2) have "lowerChar c1 = CHR ''a''"
    by (simp add: a1 ciEqual_def toLowerCase_def lowerChar_a)
  then have "\<not> isSpace c1" using space_other(3) by blast
  then show ?thesis by (simp add: a a1)
qed

lemma tail_hd:
  assumes "optQuote q" "tagRun x"
  shows "q @ x @ r \<noteq> []" "\<not> isSpace (hd (q @ x @ r))"
proof -
  from assms(2) obtain c cs where x: "x = c # cs" "isTagChar c"
    by (cases x) (auto simp: tagRun_def)
  then show "q @ x @ r \<noteq> []" by simp
  from assms(1) consider "q = []" | d where "q = [d]" "isQuote d" by (auto simp: optQuote_def)
  then show "\<not> isSpace (hd (q @ x @ r))"
  proof cases
    case 1
    with x space_other(1) show ?thesis by auto
  next
    case 2
    with space_other(2) show ?thesis by auto
  qed
qed

lemma phrase_iff_match:
  "(\<exists>pre w a x post. p = pre @ w @ post \<and> markPhrase w a x)
     \<longleftrightarrow> match_re True tagPattern p \<noteq> None"
proof
  assume "\<exists>pre w a x post. p = pre @ w @ post \<and> markPhrase w a x"
  then obtain pre w a x post where h: "p = pre @ w @ post" "markPhrase w a x" by blast
  have ne: "exec True tagPattern (w @ post) \<noteq> None" by (rule markPhrase_exec [OF h(2)])
  show "match_re True tagPattern p \<noteq> None"
  proof
    assume "match_re True tagPattern p = None"
    then have "\<forall>pre t. p = pre @ t \<longrightarrow> exec True tagPattern t = None"
      unfolding match_re_None_iff .
    from this [rule_format, OF h(1)] ne show False by simp
  qed
next
  assume "match_re True tagPattern p \<noteq> None"
  then obtain g where "match_re True tagPattern p = Some g" by auto
  from match_re_Some [OF this] obtain pre t rest where
    h: "p = pre @ t" "exec True tagPattern t = Some (rest, g)" by blast
  from exec_tag_first [OF h(2)] obtain m sp a q x post where
    d: "t = m @ sp @ a @ q @ x @ post" "ciEqual m ''mark''" "spaceRun sp" "optAs a" "optQuote q"
       "tagRun x" by blast
  then have "markPhrase (m @ sp @ a @ q @ x) a x" unfolding markPhrase_def by blast
  moreover from h(1) d(1) have "p = pre @ (m @ sp @ a @ q @ x) @ post" by simp
  ultimately show "\<exists>pre w a x post. p = pre @ w @ post \<and> markPhrase w a x" by blast
qed

section \<open>The claim about the tag\<close>

text \<open>
  C7. \<open>parsePrompt\<close> always returns a rule. When the prompt has no phrase
  \<open>mark [as] ['"]X\<close>, the rule has no tag. When it has one, the tag is the upper-case
  form of the run \<open>x\<close> of letters and underscores of such a phrase, namely of the phrase
  that starts leftmost, that takes the optional "as" when a phrase with it starts there,
  and whose run is not followed by a further letter or underscore.
\<close>

theorem tag_of_mark_phrase:
  "\<exists>r. parsePrompt newId now p = Inr (Some r) \<and>
     (\<not> (\<exists>pre w a x post. p = pre @ w @ post \<and> markPhrase w a x) \<longrightarrow> tag (action r) = None) \<and>
     ((\<exists>pre w a x post. p = pre @ w @ post \<and> markPhrase w a x) \<longrightarrow>
        (\<exists>pre w a x post. p = pre @ w @ post \<and> markPhrase w a x
           \<and> (\<forall>pre' w' a' x' post'. p = pre' @ w' @ post' \<and> markPhrase w' a' x'
                  \<longrightarrow> length pre \<le> length pre')
           \<and> (a = [] \<longrightarrow> \<not> (\<exists>w' a' x' post'. a' \<noteq> [] \<and> markPhrase w' a' x'
                                  \<and> w @ post = w' @ post'))
           \<and> (post = [] \<or> \<not> isTagChar (hd post))
           \<and> tag (action r) = Some (toUpperCase x)))"
proof -
  from parsePrompt_total [of p newId now] obtain t r where
    r: "tagOf p = Inr t" "parsePrompt newId now p = Inr (Some r)" "tag (action r) = t" by blast
  have none: "tag (action r) = None"
    if "\<not> (\<exists>pre w a x post. p = pre @ w @ post \<and> markPhrase w a x)"
  proof -
    from that have "match_re True tagPattern p = None" unfolding phrase_iff_match by simp
    with r(1) have "t = None" by (simp add: tagOf_def)
    with r(3) show ?thesis by simp
  qed
  have some: "\<exists>pre w a x post. p = pre @ w @ post \<and> markPhrase w a x
           \<and> (\<forall>pre' w' a' x' post'. p = pre' @ w' @ post' \<and> markPhrase w' a' x'
                  \<longrightarrow> length pre \<le> length pre')
           \<and> (a = [] \<longrightarrow> \<not> (\<exists>w' a' x' post'. a' \<noteq> [] \<and> markPhrase w' a' x'
                                  \<and> w @ post = w' @ post'))
           \<and> (post = [] \<or> \<not> isTagChar (hd post))
           \<and> tag (action r) = Some (toUpperCase x)"
    if "\<exists>pre w a x post. p = pre @ w @ post \<and> markPhrase w a x"
  proof -
    from that have "match_re True tagPattern p \<noteq> None" unfolding phrase_iff_match .
    then obtain g where g: "match_re True tagPattern p = Some g" by auto
    from match_re_Some [OF g] obtain pre s rest where
      h: "p = pre @ s" "exec True tagPattern s = Some (rest, g)"
         "\<forall>pre' t'. p = pre' @ t' \<and> length pre' < length pre \<longrightarrow> exec True tagPattern t' = None"
      by blast
    from exec_tag_first [OF h(2)] obtain m sp a q x post where
      d: "s = m @ sp @ a @ q @ x @ post" "ciEqual m ''mark''" "spaceRun sp" "optAs a"
         "optQuote q" "tagRun x" "post = [] \<or> \<not> isTagChar (hd post)" "g = Some x"
         "a = [] \<longrightarrow> \<not> (\<exists>a' q' x' post'. a' \<noteq> [] \<and> optAs a' \<and> optQuote q' \<and> tagRun x'
                          \<and> q @ x @ post = a' @ q' @ x' @ post')" by blast
    let ?w = "m @ sp @ a @ q @ x"
    have mp: "markPhrase ?w a x" unfolding markPhrase_def using d(2-6) by blast
    have pw: "p = pre @ ?w @ post" using h(1) d(1) by simp
    from g r(1) d(8) have "t = Some (toUpperCase x)" by (simp add: tagOf_def)
    with r(3) have tg: "tag (action r) = Some (toUpperCase x)" by simp
    have left: "\<forall>pre' w' a' x' post'. p = pre' @ w' @ post' \<and> markPhrase w' a' x'
                  \<longrightarrow> length pre \<le> length pre'"
    proof (intro allI impI)
      fix pre' w' a' x' post'
      assume a: "p = pre' @ w' @ post' \<and> markPhrase w' a' x'"
      show "length pre \<le> length pre'"
      proof (rule ccontr)
        assume "\<not> length pre \<le> length pre'"
        then have l: "length pre' < length pre" by simp
        from a have pa: "p = pre' @ w' @ post'" by simp
        from h(3) [rule_format, OF conjI, OF pa l]
        have "exec True tagPattern (w' @ post') = None" .
        with markPhrase_exec [of w' a' x' post'] a show False by blast
      qed
    qed
    have pref: "\<not> (\<exists>w' a' x' post'. a' \<noteq> [] \<and> markPhrase w' a' x' \<and> ?w @ post = w' @ post')"
      if an: "a = []"
    proof
      assume "\<exists>w' a' x' post'. a' \<noteq> [] \<and> markPhrase w' a' x' \<and> ?w @ post = w' @ post'"
      then obtain w' a' x' post' where k: "a' \<noteq> []" "markPhrase w' a' x'"
        "?w @ post = w' @ post'" by blast
      from k(2) obtain m' sp' q' where e: "w' = m' @ sp' @ a' @ q' @ x'" "ciEqual m' ''mark''"
        "spaceRun sp'" "optAs a'" "optQuote q'" "tagRun x'" unfolding markPhrase_def by blast
      from ciEqual_length [OF d(2)] ciEqual_length [OF e(2)] have "length m = length m'" by simp
      with k(3) e(1) an have mm: "m = m'"
        and rest: "sp @ (q @ x @ post) = sp' @ (a' @ q' @ x' @ post')" by simp_all
      from takeWhile_run [of isSpace sp "q @ x @ post"] d(3) tail_hd [OF d(5,6), of post]
      have 1: "takeWhile isSpace (sp @ (q @ x @ post)) = sp" by (simp add: spaceRun_def)
      from k(1) have ne: "a' @ q' @ x' @ post' \<noteq> []" by simp
      from takeWhile_run [of isSpace sp' "a' @ q' @ x' @ post'"] e(3) ne
        optAs_hd [OF e(4) k(1), of "q' @ x' @ post'"]
      have 2: "takeWhile isSpace (sp' @ (a' @ q' @ x' @ post')) = sp'" by (simp add: spaceRun_def)
      from 1 2 rest have "sp = sp'" by simp
      with rest have "q @ x @ post = a' @ q' @ x' @ post'" by simp
      with d(9) an k(1) e(4,5,6) show False by blast
    qed
    show ?thesis
    proof (intro exI conjI)
      show "p = pre @ ?w @ post" by (rule pw)
      show "markPhrase ?w a x" by (rule mp)
      show "\<forall>pre' w' a' x' post'. p = pre' @ w' @ post' \<and> markPhrase w' a' x'
                  \<longrightarrow> length pre \<le> length pre'" by (rule left)
      show "a = [] \<longrightarrow> \<not> (\<exists>w' a' x' post'. a' \<noteq> [] \<and> markPhrase w' a' x'
                                  \<and> ?w @ post = w' @ post')" using pref by blast
      show "post = [] \<or> \<not> isTagChar (hd post)" by (rule d(7))
      show "tag (action r) = Some (toUpperCase x)" by (rule tg)
    qed
  qed
  show ?thesis
  proof (rule exI [of _ r], intro conjI impI)
    show "parsePrompt newId now p = Inr (Some r)" by (rule r(2))
  next
    assume "\<not> (\<exists>pre w a x post. p = pre @ w @ post \<and> markPhrase w a x)"
    then show "tag (action r) = None" by (rule none)
  next
    assume "\<exists>pre w a x post. p = pre @ w @ post \<and> markPhrase w a x"
    then show "\<exists>pre w a x post. p = pre @ w @ post \<and> markPhrase w a x
           \<and> (\<forall>pre' w' a' x' post'. p = pre' @ w' @ post' \<and> markPhrase w' a' x'
                  \<longrightarrow> length pre \<le> length pre')
           \<and> (a = [] \<longrightarrow> \<not> (\<exists>w' a' x' post'. a' \<noteq> [] \<and> markPhrase w' a' x'
                                  \<and> w @ post = w' @ post'))
           \<and> (post = [] \<or> \<not> isTagChar (hd post))
           \<and> tag (action r) = Some (toUpperCase x)" by (rule some)
  qed
qed

theorem tag_of_mark_phrase_witness:
  "(\<exists>pre w a x post.
       ''If customer wants to update address, mark as needs_attention and escalate''
         = pre @ w @ post \<and> markPhrase w a x)
   \<and> (\<exists>r. parsePrompt ''rule_1'' ''2026-01-01T00:00:00.000Z''
             ''If customer wants to update address, mark as needs_attention and escalate''
           = Inr (Some r)
         \<and> (\<exists>x. tag (action r) = Some (toUpperCase x))
         \<and> tag (action r) = Some ''NEEDS_ATTENTION'')
   \<and> \<not> (\<exists>pre w a x post.
           ''Block all refund requests over $500'' = pre @ w @ post \<and> markPhrase w a x)
   \<and> (\<exists>r. parsePrompt ''rule_2'' ''2026-01-01T00:00:00.000Z''
             ''Block all refund requests over $500'' = Inr (Some r)
         \<and> tag (action r) = None)"
proof -
  let ?p1 = "''If customer wants to update address, mark as needs_attention and escalate''"
  let ?p2 = "''Block all refund requests over $500''"
  have m1: "match_re True tagPattern ?p1 = Some (Some ''needs_attention'')" by code_simp
  have u1: "toUpperCase ''needs_attention'' = ''NEEDS_ATTENTION''" by code_simp
  have m2: "match_re True tagPattern ?p2 = None" by code_simp
  from m1 have ph1: "\<exists>pre w a x post. ?p1 = pre @ w @ post \<and> markPhrase w a x"
    unfolding phrase_iff_match by simp
  from m2 have ph2: "\<not> (\<exists>pre w a x post. ?p2 = pre @ w @ post \<and> markPhrase w a x)"
    unfolding phrase_iff_match by simp
  from tag_of_mark_phrase [of "''rule_1''" "''2026-01-01T00:00:00.000Z''" ?p1] ph1
  obtain r1 x1 where r1: "parsePrompt ''rule_1'' ''2026-01-01T00:00:00.000Z'' ?p1 = Inr (Some r1)"
    "tag (action r1) = Some (toUpperCase x1)" by blast
  from parsePrompt_total [of ?p1 "''rule_1''" "''2026-01-01T00:00:00.000Z''"]
  obtain t r where t: "tagOf ?p1 = Inr t"
    "parsePrompt ''rule_1'' ''2026-01-01T00:00:00.000Z'' ?p1 = Inr (Some r)" "tag (action r) = t"
    by blast
  from t(1) m1 u1 have "t = Some ''NEEDS_ATTENTION''" by (simp add: tagOf_def)
  with t r1 have v1: "tag (action r1) = Some ''NEEDS_ATTENTION''" by simp
  from tag_of_mark_phrase [of "''rule_2''" "''2026-01-01T00:00:00.000Z''" ?p2] ph2
  obtain r2 where r2: "parsePrompt ''rule_2'' ''2026-01-01T00:00:00.000Z'' ?p2 = Inr (Some r2)"
    "tag (action r2) = None" by blast
  from r1 v1 have c1: "\<exists>r. parsePrompt ''rule_1'' ''2026-01-01T00:00:00.000Z'' ?p1 = Inr (Some r)
         \<and> (\<exists>x. tag (action r) = Some (toUpperCase x))
         \<and> tag (action r) = Some ''NEEDS_ATTENTION''" by blast
  from r2 have c2: "\<exists>r. parsePrompt ''rule_2'' ''2026-01-01T00:00:00.000Z'' ?p2 = Inr (Some r)
         \<and> tag (action r) = None" by blast
  from ph1 c1 ph2 c2 show ?thesis by (intro conjI)
qed

section \<open>The keywords of the stores the program builds\<close>

lemma toLowerCase_fixed_iff: "toLowerCase s = s \<longleftrightarrow> (\<forall>c \<in> set s. lowerChar c = c)"
  by (induction s) (auto simp: toLowerCase_def)

lemma set_toLowerCase_fixed: "c \<in> set (toLowerCase s) \<Longrightarrow> lowerChar c = c"
  by (auto simp: toLowerCase_def lowerChar_idem)

lemma exec_suffix: "exec ic r s = Some (rest, g) \<Longrightarrow> \<exists>u. s = u @ rest"
proof -
  assume "exec ic r s = Some (rest, g)"
  then have "(rest, g) \<in> set (ms ic r (s, None))"
    by (cases "ms ic r (s, None)") (auto simp: exec_def)
  then show ?thesis unfolding ms_iff by blast
qed

lemma set_removeAll_re: "set (removeAll_re ic r s) \<subseteq> set s"
proof (induction ic r s rule: removeAll_re.induct)
  case (1 ic r)
  then show ?case by simp
next
  case (2 ic r c cs)
  show ?case
  proof (cases "exec ic r (c # cs)")
    case None
    with 2 show ?thesis by auto
  next
    case (Some m)
    obtain rest g where m: "m = (rest, g)" by (cases m)
    from Some m obtain u where u: "c # cs = u @ rest" using exec_suffix by blast
    then have sub: "set rest \<subseteq> set (c # cs)" by (metis Un_upper2 set_append)
    show ?thesis
    proof (cases "length rest < length (c # cs)")
      case True
      with 2(2) [OF Some m [symmetric]] have "set (removeAll_re ic r rest) \<subseteq> set rest" by simp
      with sub Some m True show ?thesis by auto
    next
      case False
      with 2(3) [OF Some m [symmetric]] have "set (removeAll_re ic r cs) \<subseteq> set cs" by simp
      with Some m False show ?thesis by auto
    qed
  qed
qed

lemma set_splitLoop:
  "w \<in> set (splitLoop ic r acc s) \<Longrightarrow> set w \<subseteq> set acc \<union> set s"
proof (induction ic r acc s arbitrary: w rule: splitLoop.induct)
  case (1 ic r acc)
  then show ?case by simp
next
  case (2 ic r acc c cs)
  show ?case
  proof (cases "exec ic r (c # cs)")
    case None
    with 2(1) [OF None] 2(5) show ?thesis by fastforce
  next
    case (Some m)
    obtain rest g where m: "m = (rest, g)" by (cases m)
    from Some m obtain u where u: "c # cs = u @ rest" using exec_suffix by blast
    then have sub: "set rest \<subseteq> set (c # cs)" by (metis Un_upper2 set_append)
    show ?thesis
    proof (cases "length rest < length (c # cs)")
      case True
      with 2(5) Some m consider "w = acc" | "w \<in> set (splitLoop ic r [] rest)" by auto
      then show ?thesis
      proof cases
        case 1
        then show ?thesis by auto
      next
        case 2
        from "2.IH"(2) [OF Some m [symmetric] True 2] sub show ?thesis by auto
      qed
    next
      case False
      show ?thesis
      proof (cases "acc = []")
        case True
        with 2(5) Some m False have "w \<in> set (splitLoop ic r [c] cs)" by auto
        from "2.IH"(3) [OF Some m [symmetric] False True this] show ?thesis by auto
      next
        case nonempty: False
        with 2(5) Some m False consider "w = acc" | "w \<in> set (splitLoop ic r [c] cs)" by auto
        then show ?thesis
        proof cases
          case 1
          then show ?thesis by auto
        next
          case 2
          from "2.IH"(4) [OF Some m [symmetric] False nonempty 2] show ?thesis by auto
        qed
      qed
    qed
  qed
qed

lemma set_split_re: "w \<in> set (split_re ic r s) \<Longrightarrow> set w \<subseteq> set s"
  using set_splitLoop [of w ic r "[]" s]
  by (auto simp: split_re_def split: if_splits option.splits)

lemma set_trim: "set (trim s) \<subseteq> set s"
proof -
  have "set (trim s) \<subseteq> set (rev (dropWhile isSpace s))"
    unfolding trim_def by (metis set_dropWhileD set_rev subsetI)
  also have "\<dots> \<subseteq> set s" by (auto dest: set_dropWhileD)
  finally show ?thesis .
qed

lemma clauseWords_lower: "w \<in> set (clauseWords m1) \<Longrightarrow> toLowerCase w = w"
proof -
  assume "w \<in> set (clauseWords m1)"
  then have "w \<in> set (split_re False spaces (trim (removeAll_re False clauseStop (toLowerCase m1))))"
    by (simp add: clauseWords_def)
  from set_split_re [OF this] set_trim set_removeAll_re
  have "set w \<subseteq> set (toLowerCase m1)" by blast
  then show ?thesis unfolding toLowerCase_fixed_iff using set_toLowerCase_fixed by blast
qed

lemma fallbackWords_lower: "w \<in> set (fallbackWords (toLowerCase p)) \<Longrightarrow> toLowerCase w = w"
proof -
  assume "w \<in> set (fallbackWords (toLowerCase p))"
  then have "w \<in> set (split_re False (Plus (Not (OneOf letters_az)))
                (removeAll_re False fallbackStop (toLowerCase p)))"
    by (auto simp: fallbackWords_def dest: in_set_takeD)
  from set_split_re [OF this] set_removeAll_re
  have "set w \<subseteq> set (toLowerCase p)" by blast
  then show ?thesis unfolding toLowerCase_fixed_iff using set_toLowerCase_fixed by blast
qed

lemma triggerLoop_lower:
  "triggerLoop ps p = Inr ws \<Longrightarrow> w \<in> set ws \<Longrightarrow> toLowerCase w = w"
proof (induction ps)
  case Nil
  then show ?case by simp
next
  case (Cons r ps)
  then show ?case
    by (auto split: option.splits dest: clauseWords_lower)
qed

lemma parsePrompt_lower:
  assumes "parsePrompt newId now p = Inr (Some r)" "kw \<in> set (keywords_trigger (trigger r))"
  shows "toLowerCase kw = kw"
proof -
  from parsePrompt_total [of p newId now] assms(1) obtain ws where
    ws: "triggerLoop triggerPatterns p = Inr ws"
    and k: "keywords_trigger (trigger r) = (if ws = [] then fallbackWords (toLowerCase p) else ws)"
    by auto
  show ?thesis
  proof (cases "ws = []")
    case True
    with k assms(2) show ?thesis by (auto dest: fallbackWords_lower)
  next
    case False
    with k assms(2) triggerLoop_lower [OF ws] show ?thesis by auto
  qed
qed

lemma deactivateFirst_trigger:
  "r \<in> set (deactivateFirst x rules) \<Longrightarrow> \<exists>r0 \<in> set rules. trigger r = trigger r0"
  by (induction rules) (auto split: if_splits)

lemma reachable_lowerKeywords: "reachable rules \<Longrightarrow> lowerKeywords rules"
proof (induction rule: reachable.induct)
  case initial
  then show ?case by (simp add: lowerKeywords_def)
next
  case (added rules newId now promptText rule rules')
  show ?case
  proof (cases "parsePrompt newId now promptText")
    case (Inl e)
    with added(2) show ?thesis by (simp add: addRule_def)
  next
    case (Inr res)
    show ?thesis
    proof (cases res)
      case None
      with Inr added show ?thesis by (simp add: addRule_def)
    next
      case (Some r)
      with Inr added(2) have r': "rules' = rules @ [r]" by (simp add: addRule_def)
      from Inr Some have "\<forall>kw \<in> set (keywords_trigger (trigger r)). toLowerCase kw = kw"
        using parsePrompt_lower by blast
      with added(3) r' show ?thesis by (auto simp: lowerKeywords_def)
    qed
  qed
next
  case (deactivated rules ruleId ok rules')
  then have "rules' = rules \<or> rules' = deactivateFirst ruleId rules"
    by (auto simp: deactivateRule_def split: option.splits)
  then show ?case
  proof
    assume "rules' = rules"
    with deactivated show ?thesis by simp
  next
    assume e: "rules' = deactivateFirst ruleId rules"
    show ?thesis unfolding lowerKeywords_def
    proof (intro ballI)
      fix r kw assume r: "r \<in> set rules'" and kw: "kw \<in> set (keywords_trigger (trigger r))"
      from r e deactivateFirst_trigger obtain r0 where "r0 \<in> set rules" "trigger r = trigger r0"
        by blast
      with kw deactivated(3) show "toLowerCase kw = kw" by (auto simp: lowerKeywords_def)
    qed
  qed
next
  case (cleared rules)
  then show ?case by (simp add: lowerKeywords_def clear_def)
qed

lemma reachable_calls: "reachable rules \<Longrightarrow> reachable (calls rules cs)"
proof (induction cs arbitrary: rules)
  case Nil
  then show ?case by simp
next
  case (Cons c cs)
  show ?case
  proof (cases c)
    case (AddRule newId now p)
    show ?thesis
    proof (cases "addRule rules newId now p")
      case (Inl e)
      with AddRule Cons show ?thesis by simp
    next
      case (Inr res)
      obtain rule rules' where res: "res = (rule, rules')" by (cases res)
      from Cons.prems Inr res have "reachable rules'" by (auto intro: reachable.added)
      from Cons.IH [OF this] AddRule Inr res show ?thesis by simp
    qed
  next
    case (DeactivateRule x)
    obtain ok rules' where d: "deactivateRule rules x = (ok, rules')"
      by (cases "deactivateRule rules x")
    with Cons.prems have "reachable rules'" by (auto intro: reachable.deactivated)
    from Cons.IH [OF this] DeactivateRule d show ?thesis by simp
  qed
qed

section \<open>The claim about \<open>checkMessage\<close>\<close>

text \<open>
  C1. In every store the program can reach (from the empty store by \<open>addRule\<close>,
  \<open>deactivateRule\<close> and \<open>clear\<close>), and more generally in every store whose keywords are
  in lower case, \<open>checkMessage\<close> returns the first rule in store order that is active and
  has a keyword that is a substring of the message when case is ignored, and \<open>null\<close>
  when there is none. With R1 (keywords "address") and R2 (keywords "address", "update") in
  that order, the message "update my address" returns R1.
\<close>

theorem checkMessage_first_hit:
  "(reachable rules \<longrightarrow>
      checkMessage rules message =
        find (\<lambda>r. active r \<and> (\<exists>kw \<in> set (keywords_trigger (trigger r)). ciSubstring message kw))
          rules)
   \<and> ((\<forall>r \<in> set rules. \<forall>kw \<in> set (keywords_trigger (trigger r)). toLowerCase kw = kw) \<longrightarrow>
      checkMessage rules message =
        find (\<lambda>r. active r \<and> (\<exists>kw \<in> set (keywords_trigger (trigger r)). ciSubstring message kw))
          rules)
   \<and> (active R1 \<and> keywords_trigger (trigger R1) = [''address'']
        \<and> keywords_trigger (trigger R2) = [''address'', ''update'']
      \<longrightarrow> checkMessage [R1, R2] ''update my address'' = Some R1)"
proof -
  have gen: "checkMessage rules message =
        find (\<lambda>r. active r \<and> (\<exists>kw \<in> set (keywords_trigger (trigger r)). ciSubstring message kw))
          rules"
    if low: "\<forall>r \<in> set rules. \<forall>kw \<in> set (keywords_trigger (trigger r)). toLowerCase kw = kw"
  proof -
    have "find (\<lambda>r. active r \<and> (\<exists>kw \<in> set (keywords_trigger (trigger r)).
                 includes_str (toLowerCase message) kw)) rules
      = find (\<lambda>r. active r \<and> (\<exists>kw \<in> set (keywords_trigger (trigger r)). ciSubstring message kw))
          rules"
      using low by (intro find_cong) (auto simp: ciSubstring_def)
    then show ?thesis by (simp add: checkMessage_find)
  qed
  have ex: "checkMessage [R1, R2] ''update my address'' = Some R1"
    if a: "active R1 \<and> keywords_trigger (trigger R1) = [''address'']
        \<and> keywords_trigger (trigger R2) = [''address'', ''update'']"
  proof -
    have "includes_str (toLowerCase ''update my address'') ''address''"
      by code_simp
    with a show ?thesis by (simp add: checkMessage_find)
  qed
  show ?thesis
  proof (intro conjI impI)
    assume "reachable rules"
    then have "lowerKeywords rules" by (rule reachable_lowerKeywords)
    then show "checkMessage rules message =
        find (\<lambda>r. active r \<and> (\<exists>kw \<in> set (keywords_trigger (trigger r)). ciSubstring message kw))
          rules" unfolding lowerKeywords_def by (rule gen)
  next
    assume "\<forall>r \<in> set rules. \<forall>kw \<in> set (keywords_trigger (trigger r)). toLowerCase kw = kw"
    then show "checkMessage rules message =
        find (\<lambda>r. active r \<and> (\<exists>kw \<in> set (keywords_trigger (trigger r)). ciSubstring message kw))
          rules" by (rule gen)
  next
    assume "active R1 \<and> keywords_trigger (trigger R1) = [''address'']
        \<and> keywords_trigger (trigger R2) = [''address'', ''update'']"
    then show "checkMessage [R1, R2] ''update my address'' = Some R1" by (rule ex)
  qed
qed

theorem checkMessage_first_hit_witness:
  "(\<exists>r. addRule [] ''rule_1'' ''2026-01-01T00:00:00.000Z'' ''Block all refund requests over $500''
           = Inr (Some r, [r])
        \<and> reachable [r]
        \<and> checkMessage [r] ''I want a REFUND'' = Some r
        \<and> checkMessage [r] ''Where is my order?'' = None)
   \<and> checkMessage [ruleR1, ruleR2] ''update my address'' = Some ruleR1
   \<and> checkMessage [ruleR2, ruleR1] ''Update MY Address'' = Some ruleR2
   \<and> checkMessage [ruleR1, ruleR2] ''where is my order'' = None"
proof -
  let ?p = "''Block all refund requests over $500''"
  have t1: "triggerLoop triggerPatterns ?p = Inr []" by code_simp
  have t2: "fallbackWords (toLowerCase ?p) = [''block'', ''refund'', ''requests'']" by code_simp
  from addRule_total [of ?p "''rule_1''" "''2026-01-01T00:00:00.000Z''" "[]"] obtain ws r where
    h: "triggerLoop triggerPatterns ?p = Inr ws"
       "addRule [] ''rule_1'' ''2026-01-01T00:00:00.000Z'' ?p = Inr (Some r, [] @ [r])"
       "active r"
       "keywords_trigger (trigger r) = (if ws = [] then fallbackWords (toLowerCase ?p) else ws)"
    by blast
  from h(1) t1 have "ws = []" by simp
  with h(4) t2 have k: "keywords_trigger (trigger r) = [''block'', ''refund'', ''requests'']" by simp
  from h(2) have a: "addRule [] ''rule_1'' ''2026-01-01T00:00:00.000Z'' ?p = Inr (Some r, [r])"
    by simp
  have re: "reachable [r]" by (rule reachable.added [OF reachable.initial a])
  have y: "ciSubstring ''I want a REFUND'' ''refund''" by code_simp
  have n: "\<not> ciSubstring ''Where is my order?'' ''block''"
    "\<not> ciSubstring ''Where is my order?'' ''refund''"
    "\<not> ciSubstring ''Where is my order?'' ''requests''" by code_simp+
  have c1: "checkMessage [r] ''I want a REFUND'' = Some r"
    using checkMessage_first_hit [of "[r]" "''I want a REFUND''" ruleR1 ruleR2] re y h(3)
    by (simp add: k)
  have c2: "checkMessage [r] ''Where is my order?'' = None"
    using checkMessage_first_hit [of "[r]" "''Where is my order?''" ruleR1 ruleR2] re n
    by (simp add: k)
  from a re c1 c2 have first: "\<exists>r. addRule [] ''rule_1'' ''2026-01-01T00:00:00.000Z'' ?p
           = Inr (Some r, [r])
        \<and> reachable [r]
        \<and> checkMessage [r] ''I want a REFUND'' = Some r
        \<and> checkMessage [r] ''Where is my order?'' = None" by blast
  have l: "toLowerCase ''address'' = ''address''" "toLowerCase ''update'' = ''update''"
    by code_simp+
  have low: "\<forall>r \<in> set [ruleR1, ruleR2]. \<forall>kw \<in> set (keywords_trigger (trigger r)). toLowerCase kw = kw"
    using l by (simp add: ruleR1_def ruleR2_def)
  have low': "\<forall>r \<in> set [ruleR2, ruleR1]. \<forall>kw \<in> set (keywords_trigger (trigger r)). toLowerCase kw = kw"
    using low by simp
  have b: "active ruleR1 \<and> keywords_trigger (trigger ruleR1) = [''address'']
        \<and> keywords_trigger (trigger ruleR2) = [''address'', ''update'']"
    by (simp add: ruleR1_def ruleR2_def)
  have 1: "checkMessage [ruleR1, ruleR2] ''update my address'' = Some ruleR1"
    using checkMessage_first_hit [of "[]" "[]" ruleR1 ruleR2] b by blast
  have h2: "ciSubstring ''Update MY Address'' ''address''" by code_simp
  have 2: "checkMessage [ruleR2, ruleR1] ''Update MY Address'' = Some ruleR2"
    using checkMessage_first_hit [of "[ruleR2, ruleR1]" "''Update MY Address''" ruleR1 ruleR2] low' h2
    by (simp add: ruleR1_def ruleR2_def)
  have h3: "\<not> ciSubstring ''where is my order'' ''address''"
    "\<not> ciSubstring ''where is my order'' ''update''" by code_simp+
  have 3: "checkMessage [ruleR1, ruleR2] ''where is my order'' = None"
    using checkMessage_first_hit [of "[ruleR1, ruleR2]" "''where is my order''" ruleR1 ruleR2] low h3
    by (simp add: ruleR1_def ruleR2_def)
  from first 1 2 3 show ?thesis by (intro conjI)
qed

end
